theory Spec2Isabelle
  imports Main
begin

section \<open>Python strings\<close>

text \<open>
  Text is a list of characters. The string operations below follow Python's \<open>str\<close>
  methods on ASCII text: \<open>upper\<close> maps the letters a-z and leaves every other
  character alone, and \<open>strip\<close> removes the ASCII characters for which
  \<open>str.isspace\<close> holds (tab, line feed, vertical tab, form feed, carriage return,
  the four separators 28-31 and the blank).
\<close>

definition isspace :: "char \<Rightarrow> bool" where
  "isspace c = (let n = (of_char c :: nat) in (9 \<le> n \<and> n \<le> 13) \<or> (28 \<le> n \<and> n \<le> 32))"

definition upper_char :: "char \<Rightarrow> char" where
  "upper_char c =
     (let n = (of_char c :: nat) in if 97 \<le> n \<and> n \<le> 122 then char_of (n - 32) else c)"

definition upper :: "string \<Rightarrow> string" where
  "upper s = map upper_char s"

definition lstrip :: "string \<Rightarrow> string" where
  "lstrip s = dropWhile isspace s"

definition rstrip :: "string \<Rightarrow> string" where
  "rstrip s = rev (dropWhile isspace (rev s))"

definition strip :: "string \<Rightarrow> string" where
  "strip s = rstrip (lstrip s)"

definition startswith :: "string \<Rightarrow> string \<Rightarrow> bool" where
  \<comment> \<open>\<open>s.startswith(p)\<close>\<close>
  "startswith s p = (take (length p) s = p)"

definition endswith :: "string \<Rightarrow> string \<Rightarrow> bool" where
  \<comment> \<open>\<open>s.endswith(p)\<close>\<close>
  "endswith s p = (length p \<le> length s \<and> drop (length s - length p) s = p)"

fun find_from :: "nat \<Rightarrow> string \<Rightarrow> string \<Rightarrow> nat option" where
  "find_from i [] p = (if p = [] then Some i else None)"
| "find_from i (c # s) p = (if startswith (c # s) p then Some i else find_from (Suc i) s p)"

definition str_find :: "string \<Rightarrow> string \<Rightarrow> nat option" where
  \<comment> \<open>\<open>s.find(p)\<close>: the least index where \<open>p\<close> occurs; \<open>None\<close> stands for \<open>-1\<close>\<close>
  "str_find s p = find_from 0 s p"

definition contains :: "string \<Rightarrow> string \<Rightarrow> bool" where
  \<comment> \<open>\<open>p in s\<close>\<close>
  "contains s p = (str_find s p \<noteq> None)"

fun split_on :: "char \<Rightarrow> string \<Rightarrow> string list" where
  \<comment> \<open>\<open>s.split(c)\<close> for a one-character separator: always at least one part\<close>
  "split_on c [] = [[]]"
| "split_on c (x # xs) =
     (if x = c then [] # split_on c xs
      else (case split_on c xs of [] \<Rightarrow> [[x]] | p # ps \<Rightarrow> (x # p) # ps))"

definition py_slice_to :: "int \<Rightarrow> 'a list \<Rightarrow> 'a list" where
  \<comment> \<open>\<open>xs[:k]\<close>: a negative \<open>k\<close> counts from the end\<close>
  "py_slice_to k xs = (if 0 \<le> k then take (nat k) xs else take (nat (int (length xs) + k)) xs)"

section \<open>Errors\<close>

datatype error =
    OSError string
  | FileNotFoundError string
  | APIError string
  | AttributeError string
  | IndexError
  | UnidentifiedImageError
  | KeyError string
  | ValueError string
  | StreamlitAPIException string

fun str_error :: "error \<Rightarrow> string" where
  \<comment> \<open>\<open>str(e)\<close>\<close>
  "str_error (OSError m) = m"
| "str_error (FileNotFoundError m) = m"
| "str_error (APIError m) = m"
| "str_error (AttributeError m) = m"
| "str_error IndexError = ''list index out of range''"
| "str_error UnidentifiedImageError = ''cannot identify image file''"
| "str_error (KeyError m) = m"
| "str_error (ValueError m) = m"
| "str_error (StreamlitAPIException m) = m"

definition no_attribute :: "string \<Rightarrow> string" where
  \<comment> \<open>the text of the AttributeError for \<open>None.attr\<close>:
      \<open>'NoneType' object has no attribute 'attr'\<close>\<close>
  "no_attribute attr =
     [CHR 0x27] @ ''NoneType'' @ [CHR 0x27] @ '' object has no attribute '' @ [CHR 0x27] @ attr
     @ [CHR 0x27]"

section \<open>Image curation (image_remover.py)\<close>

subsection \<open>The directory tree under room_styles\<close>

text \<open>
  The curation run only touches files of the style directories below
  \<open>room_styles\<close>. The tree is the list of these directories in the order
  \<open>iterdir\<close> yields them, each with the names of its files in the order the
  directory lists them. A path is a directory name with a file name.
  The run summary is written to another directory, \<open>image_evaluation_results\<close>,
  which is no part of this tree; the model returns the summary as a value.
  \<open>unlink\<close> fails for a file that is not there and succeeds for one that is:
  permissions and other faults of the operating system are outside the model.
\<close>

type_synonym path = "string \<times> string"
type_synonym tree = "(string \<times> string list) list"

definition exists :: "tree \<Rightarrow> path \<Rightarrow> bool" where
  \<comment> \<open>\<open>Path.exists\<close>\<close>
  "exists fs p = list_ex (\<lambda>(d, names). d = fst p \<and> snd p \<in> set names) fs"

definition unlink :: "tree \<Rightarrow> path \<Rightarrow> error + tree" where
  \<comment> \<open>\<open>Path.unlink\<close>: raises FileNotFoundError for a file that is not there\<close>
  "unlink fs p =
     (if exists fs p
      then Inr (map (\<lambda>(d, names). if d = fst p then (d, removeAll (snd p) names) else (d, names)) fs)
      else Inl (FileNotFoundError (snd p)))"

definition glob :: "string list \<Rightarrow> string \<Rightarrow> string list" where
  \<comment> \<open>\<open>style_dir.glob("*" + ext)\<close> on the names of one directory\<close>
  "glob names ext = filter (\<lambda>n. endswith n ext) names"

definition suffix :: "string \<Rightarrow> string" where
  \<comment> \<open>\<open>PurePath.suffix\<close>: from the last dot of the name, unless that dot is the first
      or the last character\<close>
  "suffix name =
     (case str_find (rev name) ''.'' of
        None \<Rightarrow> []
      | Some k \<Rightarrow> (let i = length name - 1 - k
                  in if 0 < i \<and> i < length name - 1 then drop i name else []))"

definition with_suffix :: "string \<Rightarrow> string \<Rightarrow> string" where
  \<comment> \<open>\<open>PurePath.with_suffix\<close> on the file name\<close>
  "with_suffix name sfx =
     (let old = suffix name
      in if old = [] then name @ sfx else take (length name - length old) name @ sfx)"

subsection \<open>The classifier\<close>

text \<open>
  The outside world of one run: what reading a file returns (its base64 text, or the
  error \<open>open\<close> raised), and what the two chat requests for an image return (the
  message content, which the API types as optional, or the exception the call raised).
\<close>

record client =
  read_b64 :: "path \<Rightarrow> error + string"
  first_reply :: "path \<Rightarrow> error + string option"
  detail_reply :: "path \<Rightarrow> error + string option"

definition encode_image :: "client \<Rightarrow> path \<Rightarrow> string option" where
  "encode_image cl image_path =
     (case read_b64 cl image_path of Inl e \<Rightarrow> None | Inr b \<Rightarrow> Some b)"

definition content_strip :: "string option \<Rightarrow> error + string" where
  \<comment> \<open>\<open>message.content.strip()\<close>: a missing content has no \<open>strip\<close>\<close>
  "content_strip c =
     (case c of None \<Rightarrow> Inl (AttributeError (no_attribute ''strip''))
      | Some t \<Rightarrow> Inr (strip t))"

definition evaluate_image :: "client \<Rightarrow> path \<Rightarrow> error + (bool \<times> string)" where
  "evaluate_image cl image_path =
     (let encoded_image = encode_image cl image_path in
      if encoded_image = None \<or> encoded_image = Some [] then Inr (False, ''Failed to encode image'')
      else
        (case first_reply cl image_path of
           Inl e \<Rightarrow> Inr (False, ''API error: '' @ str_error e)
         | Inr c \<Rightarrow>
            (case content_strip c of
               Inl e \<Rightarrow> Inr (False, ''API error: '' @ str_error e)
             | Inr t \<Rightarrow>
                (let response_text = upper t in
                 if contains response_text ''YES''
                 then Inr (True, ''Good quality interior design image'')
                 else if contains response_text ''NO''
                 then (case detail_reply cl image_path of
                         Inl e \<Rightarrow> Inr (False, ''API error: '' @ str_error e)
                       | Inr d \<Rightarrow>
                          (case content_strip d of
                             Inl e \<Rightarrow> Inr (False, ''API error: '' @ str_error e)
                           | Inr reason \<Rightarrow> Inr (False, reason)))
                 else Inr (False, ''Unclear evaluation: '' @ response_text)))))"

subsection \<open>Statistics\<close>

record style_stats =
  st_total :: nat
  st_kept :: nat
  st_removed :: nat
  st_errors :: nat

record stats =
  total_processed :: nat
  kept :: nat
  removed :: nat
  errors :: nat
  by_style :: "string \<rightharpoonup> style_stats"

definition in_style :: "string \<Rightarrow> (style_stats \<Rightarrow> style_stats) \<Rightarrow> stats \<Rightarrow> stats" where
  \<comment> \<open>\<open>stats["by_style"][style_name][k] += 1\<close>; the entry is created when the run enters
      the style, before any image of it is counted\<close>
  "in_style style_name f s =
     (case by_style s style_name of
        None \<Rightarrow> s
      | Some e \<Rightarrow> s\<lparr>by_style := (by_style s)(style_name \<mapsto> f e)\<rparr>)"

definition count_total :: "string \<Rightarrow> stats \<Rightarrow> stats" where
  "count_total n s = in_style n (\<lambda>e. e\<lparr>st_total := st_total e + 1\<rparr>) (s\<lparr>total_processed := total_processed s + 1\<rparr>)"

definition count_kept :: "string \<Rightarrow> stats \<Rightarrow> stats" where
  "count_kept n s = in_style n (\<lambda>e. e\<lparr>st_kept := st_kept e + 1\<rparr>) (s\<lparr>kept := kept s + 1\<rparr>)"

definition count_removed :: "string \<Rightarrow> stats \<Rightarrow> stats" where
  "count_removed n s = in_style n (\<lambda>e. e\<lparr>st_removed := st_removed e + 1\<rparr>) (s\<lparr>removed := removed s + 1\<rparr>)"

definition count_error :: "string \<Rightarrow> stats \<Rightarrow> stats" where
  "count_error n s = in_style n (\<lambda>e. e\<lparr>st_errors := st_errors e + 1\<rparr>) (s\<lparr>errors := errors s + 1\<rparr>)"

subsection \<open>The run\<close>

definition delete_files :: "string \<Rightarrow> string \<Rightarrow> tree \<times> stats \<Rightarrow> tree \<times> stats" where
  \<comment> \<open>lines 224-238: the inner \<open>try\<close> around the two \<open>unlink\<close> calls\<close>
  "delete_files style_name image_file = (\<lambda>(fs, s).
     (let metadata_file = with_suffix image_file ''.txt'' in
      case unlink fs (style_name, image_file) of
        Inl e \<Rightarrow> (fs, count_error style_name s)
      | Inr fs1 \<Rightarrow>
         (if exists fs1 (style_name, metadata_file)
          then (case unlink fs1 (style_name, metadata_file) of
                  Inl e \<Rightarrow> (fs1, count_error style_name s)
                | Inr fs2 \<Rightarrow> (fs2, s))
          else (fs1, s))))"

definition process_image :: "client \<Rightarrow> bool \<Rightarrow> string \<Rightarrow> string \<Rightarrow> tree \<times> stats \<Rightarrow> tree \<times> stats" where
  \<comment> \<open>lines 199-243: the body of the loop over the images of one style\<close>
  "process_image cl dry_run style_name image_file = (\<lambda>(fs, s0).
     (let s = count_total style_name s0 in
      case evaluate_image cl (style_name, image_file) of
        Inl e \<Rightarrow> (fs, count_error style_name s)
      | Inr (is_good_image, reason) \<Rightarrow>
         (if is_good_image then (fs, count_kept style_name s)
          else (let s' = count_removed style_name s
                in if \<not> dry_run then delete_files style_name image_file (fs, s') else (fs, s')))))"

definition list_images :: "string list \<Rightarrow> string list" where
  \<comment> \<open>lines 183-188\<close>
  "list_images names =
     filter (\<lambda>f. \<not> endswith f ''.txt'')
       (glob names ''.jpg'' @ glob names ''.jpeg'' @ glob names ''.png'')"

definition apply_limit :: "int option \<Rightarrow> nat \<Rightarrow> string list \<Rightarrow> string list" where
  \<comment> \<open>lines 193-195; \<open>None\<close> and 0 are both false in \<open>if limit and ...\<close>\<close>
  "apply_limit limit done image_files =
     (case limit of
        None \<Rightarrow> image_files
      | Some l \<Rightarrow>
         (if l \<noteq> 0 \<and> int done + int (length image_files) > l
          then py_slice_to (l - int done) image_files
          else image_files))"

definition process_style :: "client \<Rightarrow> bool \<Rightarrow> int option \<Rightarrow> string \<Rightarrow> tree \<times> stats \<Rightarrow> tree \<times> stats" where
  \<comment> \<open>lines 170-248: the body of the loop over the style directories; the files of the
      directory are listed when the run reaches it\<close>
  "process_style cl dry_run limit style_name = (\<lambda>(fs, s0).
     (let s = s0\<lparr>by_style := (by_style s0)(style_name \<mapsto>
                  \<lparr>st_total = 0, st_kept = 0, st_removed = 0, st_errors = 0\<rparr>)\<rparr>;
          names = concat (map snd (filter (\<lambda>(d, ns). d = style_name) fs));
          image_files = apply_limit limit (total_processed s) (list_images names)
      in fold (process_image cl dry_run style_name) image_files (fs, s)))"

definition process_directories ::
  "string option \<Rightarrow> client \<Rightarrow> bool \<Rightarrow> int option \<Rightarrow> tree option \<Rightarrow> tree option \<times> stats option" where
  \<comment> \<open>the arguments are the OPENAI_API_KEY of the environment, the outside world,
      \<open>dry_run\<close>, \<open>limit\<close> and the tree (\<open>None\<close> when room_styles does not exist);
      the result is the tree after the run and the summary written, if any\<close>
  "process_directories api_key cl dry_run limit base =
     (if api_key = None \<or> api_key = Some [] then (base, None)
      else (case base of
              None \<Rightarrow> (None, None)
            | Some fs \<Rightarrow>
               (let style_dirs = map fst fs;
                    s0 = \<lparr>total_processed = 0, kept = 0, removed = 0, errors = 0, by_style = Map.empty\<rparr>;
                    (fs', s) = fold (process_style cl dry_run limit) style_dirs (fs, s0)
                in (Some fs', Some s))))"

section \<open>Design options (streamlit_app.py)\<close>

subsection \<open>Formatting\<close>

definition nl :: string where
  \<comment> \<open>the line feed, \<open>"\n"\<close>\<close>
  "nl = [CHR 0x0A]"

fun str_nat :: "nat \<Rightarrow> string" where
  \<comment> \<open>\<open>f"{n}"\<close> for a count\<close>
  "str_nat n =
     (if n < 10 then [char_of (48 + n)] else str_nat (n div 10) @ [char_of (48 + n mod 10)])"

declare str_nat.simps [simp del]

subsection \<open>Splitting the reply (lines 218-299)\<close>

definition is_marker :: "string \<Rightarrow> string \<Rightarrow> bool" where
  \<comment> \<open>\<open>part.strip().upper().startswith(word) and ":" in part\<close>\<close>
  "is_marker word part = (startswith (upper (strip part)) word \<and> contains part '':'')"

fun split_marked :: "string \<Rightarrow> string list \<Rightarrow> string \<times> string list \<Rightarrow> string \<times> string list" where
  \<comment> \<open>the loop over the lines, on the pair of \<open>current_option\<close> and \<open>options\<close>\<close>
  "split_marked word [] (current_option, options) = (current_option, options)"
| "split_marked word (part # parts) (current_option, options) =
     (if is_marker word part
      then split_marked word parts
             (part, if current_option \<noteq> [] then options @ [strip current_option] else options)
      else split_marked word parts (current_option @ nl @ part, options))"

definition split_by_marker :: "string \<Rightarrow> string \<Rightarrow> string list" where
  \<comment> \<open>lines 225-240 with \<open>word = "OPTION "\<close>, lines 244-259 with \<open>"DESIGN OPTION "\<close>\<close>
  "split_by_marker word response_text =
     (case split_marked word (split_on (CHR 0x0A) response_text) ([], []) of
        (current_option, options) \<Rightarrow>
          if current_option \<noteq> [] then options @ [strip current_option] else options)"

definition numbered_parts :: "nat \<Rightarrow> string \<Rightarrow> string list" where
  \<comment> \<open>lines 263-267\<close>
  "numbered_parts num_options response_text =
     filter (\<lambda>p. contains response_text p) (map (\<lambda>i. str_nat i @ ''.'') [1 ..< num_options + 1])"

fun split_numbered :: "string \<Rightarrow> string list \<Rightarrow> string list" where
  \<comment> \<open>lines 270-280: from each marker found to the next one found, the last to the end\<close>
  "split_numbered response_text [] = []"
| "split_numbered response_text [p] =
     (case str_find response_text p of
        None \<Rightarrow> []
      | Some start_idx \<Rightarrow> [drop start_idx response_text])"
| "split_numbered response_text (p # q # parts) =
     (case (str_find response_text p, str_find response_text q) of
        (Some start_idx, Some end_idx) \<Rightarrow> [drop start_idx (take end_idx response_text)]
      | _ \<Rightarrow> [])
     @ split_numbered response_text (q # parts)"

definition parse_options :: "nat \<Rightarrow> string \<Rightarrow> string list" where
  \<comment> \<open>lines 220-285: the list \<open>options\<close> before padding and truncation\<close>
  "parse_options num_options response_text =
     (if contains (upper response_text) ''OPTION 1''
      then split_by_marker ''OPTION '' response_text
      else if contains (upper response_text) ''DESIGN OPTION 1''
      then split_by_marker ''DESIGN OPTION '' response_text
      else if contains response_text ''1.'' \<and> contains response_text ''2.''
      then split_numbered response_text (numbered_parts num_options response_text)
      else [response_text])"

function pad_options :: "nat \<Rightarrow> string list \<Rightarrow> error + string list" where
  \<comment> \<open>lines 292-293; \<open>options[0]\<close> of an empty list raises\<close>
  "pad_options num_options options =
     (if length options < num_options
      then (case options of
              [] \<Rightarrow> Inl IndexError
            | first # _ \<Rightarrow>
               pad_options num_options
                 (options @ [''Design Variation '' @ str_nat (length options + 1) @ '':'' @ nl @ first]))
      else Inr options)"
  by pat_completeness auto
termination
  by (relation "measure (\<lambda>(n, options). n - length options)") auto

declare pad_options.simps [simp del]

definition finish_options :: "nat \<Rightarrow> string list \<Rightarrow> error + string list" where
  \<comment> \<open>lines 288-297\<close>
  "finish_options num_options options =
     (case pad_options num_options options of
        Inl e \<Rightarrow> Inl e
      | Inr padded \<Rightarrow>
         Inr (if length padded > num_options then take num_options padded else padded))"

subsection \<open>The request and the whole function (lines 124-304)\<close>

datatype content = Text string | ImageUrl string

text \<open>
  The outside world of the application: what \<open>encode_image\<close> returns for a path (the
  base64 text of the file, or the error \<open>open\<close> raised) and what the chat request
  returns for the content of the user message (the message content, which the API
  types as optional, or the exception the call raised).
\<close>

record app_world =
  app_read_b64 :: "string \<Rightarrow> error + string"
  app_create :: "content list \<Rightarrow> error + string option"

fun encode_images :: "app_world \<Rightarrow> string list \<Rightarrow> error + content list" where
  \<comment> \<open>the loops of lines 172-179 and 189-196: the first failing \<open>open\<close> ends the loop\<close>
  "encode_images w [] = Inr []"
| "encode_images w (img_path # rest) =
     (case app_read_b64 w img_path of
        Inl e \<Rightarrow> Inl e
      | Inr encoded_image \<Rightarrow>
         (case encode_images w rest of
            Inl e \<Rightarrow> Inl e
          | Inr cs \<Rightarrow> Inr (ImageUrl (''data:image/jpeg;base64,'' @ encoded_image) # cs)))"

definition request_text :: "nat \<Rightarrow> string \<Rightarrow> string \<Rightarrow> string" where
  "request_text num_options room_type room_size =
     ''I need '' @ str_nat num_options @ '' DIFFERENT design options for my '' @ room_type
     @ (if room_size \<noteq> [] then '' with dimensions: '' @ room_size else [])
     @ ''. Please create '' @ str_nat num_options
     @ '' distinct approaches, each with its own title, brief description, and specific furniture/decor recommendations. ''
     @ ''Below is a photo of my empty room, followed by example room images I liked and disliked.''"

definition user_content ::
  "app_world \<Rightarrow> string list \<Rightarrow> string list \<Rightarrow> string \<Rightarrow> string \<Rightarrow> string \<Rightarrow> nat
     \<Rightarrow> error + content list" where
  \<comment> \<open>lines 144-196\<close>
  "user_content w liked_images disliked_images uploaded_room_image room_type room_size num_options =
     (case encode_images w liked_images of
        Inl e \<Rightarrow> Inl e
      | Inr liked \<Rightarrow>
         (let start = [Text (request_text num_options room_type room_size),
                       ImageUrl (''data:image/jpeg;base64,'' @ uploaded_room_image),
                       Text ''ROOM IMAGES I LIKED:''] @ liked
          in if disliked_images \<noteq> []
             then (case encode_images w disliked_images of
                     Inl e \<Rightarrow> Inl e
                   | Inr disliked \<Rightarrow> Inr (start @ [Text ''ROOM IMAGES I DISLIKED:''] @ disliked))
             else Inr start))"

definition try_generate ::
  "app_world \<Rightarrow> string list \<Rightarrow> string list \<Rightarrow> string \<Rightarrow> string \<Rightarrow> string \<Rightarrow> nat
     \<Rightarrow> error + string list" where
  \<comment> \<open>the body of the \<open>try\<close>, lines 129-299\<close>
  "try_generate w liked_images disliked_images uploaded_room_image room_type room_size num_options =
     (case user_content w liked_images disliked_images uploaded_room_image room_type room_size
             num_options of
        Inl e \<Rightarrow> Inl e
      | Inr msg \<Rightarrow>
         (case app_create w msg of
            Inl e \<Rightarrow> Inl e
          | Inr None \<Rightarrow> Inl (AttributeError (no_attribute ''upper''))
          | Inr (Some response_text) \<Rightarrow>
             finish_options num_options (parse_options num_options response_text)))"

definition generate_design_options ::
  "app_world \<Rightarrow> string list \<Rightarrow> string list \<Rightarrow> string \<Rightarrow> string \<Rightarrow> string \<Rightarrow> nat
     \<Rightarrow> string list" where
  "generate_design_options w liked_images disliked_images uploaded_room_image room_type room_size
      num_options =
     (case try_generate w liked_images disliked_images uploaded_room_image room_type room_size
             num_options of
        Inl e \<Rightarrow> [''Error generating design: '' @ str_error e]
      | Inr options \<Rightarrow> options)"

definition join_lines :: "string \<Rightarrow> string list \<Rightarrow> string" where
  \<comment> \<open>a marker line with the lines accumulated after it by
      \<open>current_option += "\n" + part\<close>\<close>
  "join_lines first_line later_lines = foldl (\<lambda>acc part. acc @ nl @ part) first_line later_lines"

definition flush :: "string \<times> string list \<Rightarrow> string list" where
  \<comment> \<open>\<open>if current_option: options.append(current_option.strip())\<close>\<close>
  "flush = (\<lambda>(current_option, options).
     if current_option \<noteq> [] then options @ [strip current_option] else options)"

subsection \<open>Choosing the example images (lines 83-108)\<close>

record style =
  s_name :: string
  s_description :: "string option"
  s_image_paths :: "string list"

text \<open>
  \<open>random.shuffle\<close> is the outside world here: the two functions give the order in
  which a shuffle leaves the list of styles and the list of image paths of a style.
  Nothing is assumed of them.
\<close>

record rng =
  shuffle_styles :: "style list \<Rightarrow> style list"
  shuffle_paths :: "string list \<Rightarrow> string list"

type_synonym selection = "string list \<times> (string \<rightharpoonup> string \<times> string)"

definition entry_of :: "style \<Rightarrow> string \<times> string" where
  \<comment> \<open>lines 103-106: the name and \<open>style.get("description", "")\<close>\<close>
  "entry_of st = (s_name st, case s_description st of None \<Rightarrow> [] | Some d \<Rightarrow> d)"

definition add_image :: "nat \<Rightarrow> style \<Rightarrow> string \<Rightarrow> selection \<Rightarrow> selection" where
  \<comment> \<open>lines 101-106: the body of the loop over \<open>selected\<close>\<close>
  "add_image num_images st img = (\<lambda>(all_images, style_info).
     if length all_images < num_images
     then (all_images @ [img], style_info(img \<mapsto> entry_of st))
     else (all_images, style_info))"

definition selected_of :: "rng \<Rightarrow> style \<Rightarrow> string list" where
  \<comment> \<open>lines 94-98: the images drawn from one style\<close>
  "selected_of r st =
     (let style_images = s_image_paths st
      in if style_images \<noteq> []
         then (let shuffled = shuffle_paths r style_images
               in take (min 2 (length shuffled)) shuffled)
         else [])"

fun select_loop :: "rng \<Rightarrow> nat \<Rightarrow> style list \<Rightarrow> selection \<Rightarrow> selection" where
  \<comment> \<open>lines 90-106: the loop over the styles, left when enough images are chosen\<close>
  "select_loop r num_images [] acc = acc"
| "select_loop r num_images (st # styles) acc =
     (if length (fst acc) \<ge> num_images then acc
      else select_loop r num_images styles (fold (add_image num_images st) (selected_of r st) acc))"

definition select_random_images :: "rng \<Rightarrow> style list \<Rightarrow> nat \<Rightarrow> selection" where
  "select_random_images r styles num_images =
     select_loop r num_images (shuffle_styles r styles) ([], Map.empty)"

section \<open>Image acquisition (style_image_downloader.py)\<close>

definition IMAGES_PER_STYLE :: nat where
  "IMAGES_PER_STYLE = 70"

definition MIN_IMAGE_SIZE :: int where
  "MIN_IMAGE_SIZE = 400"

definition replace_char :: "char \<Rightarrow> string \<Rightarrow> string \<Rightarrow> string" where
  \<comment> \<open>\<open>s.replace(c, r)\<close> for a one-character \<open>c\<close>\<close>
  "replace_char c r s = concat (map (\<lambda>x. if x = c then r else [x]) s)"

text \<open>
  A photo of a search result. The width and the height that the API reports for it are
  kept apart from the size of the image that is decoded from the download.
\<close>

record photo =
  p_id :: "string option"
  p_src_large :: "string option"
  p_photographer :: "string option"
  p_url :: "string option"
  p_width :: int
  p_height :: int

text \<open>
  The outside world of a download: the API key of the environment, the status of the
  validation request, for each search URL the status and the photos of the reply in
  the order \<open>random.shuffle\<close> leaves them, and for each image URL the status and
  the size \<open>(width, height)\<close> of the image PIL decodes from the body (\<open>None\<close> when
  \<open>Image.open\<close> raises). A request that raises is an \<open>Inl\<close>. Writing a file is
  taken to succeed.
\<close>

record pexels =
  pexels_key :: "string option"
  get_test :: "error + int"
  get_search :: "string \<Rightarrow> error + (int \<times> photo list)"
  get_image :: "string \<Rightarrow> error + (int \<times> (int \<times> int) option)"

record dl_style =
  d_name :: string
  d_keywords :: "string list"

type_synonym dl_state = "nat \<times> string list"
  \<comment> \<open>\<open>total_downloaded\<close> and the names of the files written to the style directory\<close>

definition download_photo :: "pexels \<Rightarrow> string \<Rightarrow> photo \<Rightarrow> dl_state \<Rightarrow> dl_state" where
  \<comment> \<open>lines 315-351: the \<open>try\<close> in the loop over the photos\<close>
  "download_photo px keyword ph = (\<lambda>(total_downloaded, files).
     (case p_src_large ph of
        None \<Rightarrow> (total_downloaded, files)
      | Some image_url \<Rightarrow>
         (case get_image px image_url of
            Inl e \<Rightarrow> (total_downloaded, files)
          | Inr (status_code, img) \<Rightarrow>
             (if status_code = 200
              then (case img of
                      None \<Rightarrow> (total_downloaded, files)
                    | Some (width, height) \<Rightarrow>
                       (if width \<ge> MIN_IMAGE_SIZE \<and> height \<ge> MIN_IMAGE_SIZE
                        then (let photo_id = (case p_id ph of None \<Rightarrow> ''unknown'' | Some i \<Rightarrow> i);
                                  stem = replace_char (CHR '' '') ''_'' keyword @ ''_'' @ photo_id
                              in (total_downloaded + 1, files @ [stem @ ''.jpg'', stem @ ''.txt'']))
                        else (total_downloaded, files)))
              else (total_downloaded, files)))))"

fun download_photos :: "pexels \<Rightarrow> string \<Rightarrow> nat \<Rightarrow> photo list \<Rightarrow> dl_state \<Rightarrow> dl_state" where
  \<comment> \<open>lines 311-351: the loop over the photos, left at \<open>max_images\<close>\<close>
  "download_photos px keyword max_images [] st = st"
| "download_photos px keyword max_images (ph # photos) st =
     (if fst st \<ge> max_images then st
      else download_photos px keyword max_images photos (download_photo px keyword ph st))"

definition search_url :: "string \<Rightarrow> string" where
  "search_url search_query =
     ''https://api.pexels.com/v1/search?query='' @ replace_char (CHR '' '') ''%20'' search_query
     @ ''&per_page=30&orientation=landscape''"

fun try_queries :: "pexels \<Rightarrow> string \<Rightarrow> nat \<Rightarrow> nat \<Rightarrow> string list \<Rightarrow> dl_state \<Rightarrow> dl_state" where
  \<comment> \<open>lines 275-358: the loop over the search queries of one keyword\<close>
  "try_queries px keyword max_images images_per_keyword [] st = st"
| "try_queries px keyword max_images images_per_keyword (search_query # rest) st =
     (if fst st \<ge> images_per_keyword then st
      else (case get_search px (search_url search_query) of
              Inl e \<Rightarrow> try_queries px keyword max_images images_per_keyword rest st
            | Inr (status_code, photos) \<Rightarrow>
               (if status_code \<noteq> 200
                then try_queries px keyword max_images images_per_keyword rest st
                else if photos = []
                then try_queries px keyword max_images images_per_keyword rest st
                else (let remaining = images_per_keyword - fst st;
                          st' = download_photos px keyword max_images (take remaining photos) st
                      in if fst st' > 0 then st'
                         else try_queries px keyword max_images images_per_keyword rest st'))))"

definition search_queries :: "string \<Rightarrow> string \<Rightarrow> string list" where
  \<comment> \<open>lines 269-273\<close>
  "search_queries style_name keyword =
     [keyword @ '' '' @ style_name @ '' interior'',
      style_name @ '' '' @ keyword @ '' room'',
      keyword @ '' interior design '' @ style_name]"

definition all_keywords :: "pexels \<Rightarrow> string \<Rightarrow> nat \<Rightarrow> nat \<Rightarrow> string list \<Rightarrow> dl_state \<Rightarrow> dl_state" where
  \<comment> \<open>lines 267-358: the loop over the keywords; \<open>total_downloaded\<close> runs through
      all of them\<close>
  "all_keywords px style_name max_images images_per_keyword keywords st =
     fold (\<lambda>keyword. try_queries px keyword max_images images_per_keyword
                        (search_queries style_name keyword)) keywords st"

definition download_pexels_images :: "pexels \<Rightarrow> dl_style \<Rightarrow> nat \<Rightarrow> error + dl_state" where
  "download_pexels_images px st max_images =
     (let style_name = d_name st; search_keywords = d_keywords st in
      if search_keywords = [] then Inr (0, [])
      else
       (let images_per_keyword = max_images div length search_keywords in
        if pexels_key px = None \<or> pexels_key px = Some []
           \<or> pexels_key px = Some ''your_pexels_api_key_here''
        then Inl (ValueError ''Pexels API key is required to download images'')
        else (case get_test px of
                Inl e \<Rightarrow> Inl e
              | Inr status_code \<Rightarrow>
                 (if status_code \<noteq> 200
                  then Inl (ValueError ''Invalid Pexels API key. Please check your .env file.'')
                  else Inr (all_keywords px style_name max_images images_per_keyword
                              search_keywords (0, []))))))"

section \<open>The interactive flow (streamlit_app.py, main)\<close>

text \<open>
  \<open>st.session_state\<close> holds the keys the script stores; a key that is absent is
  \<open>None\<close>. One run of the script is one call of \<open>main\<close>: it starts from the session
  the last run left and from what the user did on the page (the button clicked and
  the values of the input widgets), and it ends at the end of the script, at
  \<open>return\<close>, at \<open>st.rerun()\<close> or at an exception.
\<close>

record session =
  ss_step :: "nat option"
  ss_random_images :: "string list option"
  ss_style_info :: "(string \<rightharpoonup> string \<times> string) option"
  ss_current_index :: "nat option"
  ss_liked_images :: "string list option"
  ss_disliked_images :: "string list option"
  ss_room_type :: "string option"
  ss_room_size :: "string option"
  ss_room_image :: "string option"
  ss_design_options :: "string list option"

definition empty_session :: session where
  "empty_session =
     \<lparr>ss_step = None, ss_random_images = None, ss_style_info = None, ss_current_index = None,
      ss_liked_images = None, ss_disliked_images = None, ss_room_type = None,
      ss_room_size = None, ss_room_image = None, ss_design_options = None\<rparr>"

datatype button =
    NoButton
  | Like
  | Dislike
  | ResetStyles
  | ContinueToUpload
  | BackToPreferences
  | GenerateDesign
  | BackToUpload
  | StartOver

text \<open>
  The file of the upload widget is given by the base64 text of its bytes, which is what
  \<open>load_image_from_upload\<close> computes from it.
\<close>

record event =
  clicked :: button
  sel_room_type :: string
  txt_room_size :: string
  uploaded_file :: "string option"

text \<open>
  The outside world of the application: the OPENAI_API_KEY of the environment, the list
  \<open>load_styles()\<close> returns, the shuffles, the files and the chat API, and whether
  \<open>Image.open\<close> accepts the bytes with a given base64 text.
\<close>

record app_env =
  env_api_key :: "string option"
  env_styles :: "style list"
  env_rng :: rng
  env_world :: app_world
  pil_opens :: "string \<Rightarrow> bool"

datatype outcome = Finished | Stopped | Rerun | Raised error

definition load_image_from_upload :: "string option \<Rightarrow> string option" where
  \<comment> \<open>lines 115-122\<close>
  "load_image_from_upload uploaded = (case uploaded of Some encoded \<Rightarrow> Some encoded | None \<Rightarrow> None)"

definition style_names :: "(string \<rightharpoonup> string \<times> string) option \<Rightarrow> string list \<Rightarrow> error + string list" where
  \<comment> \<open>\<open>[st.session_state.style_info[img]["name"] for img in imgs]\<close> under
      \<open>if imgs:\<close> (lines 385-387, 390-392, 421-422)\<close>
  "style_names style_info imgs =
     (if imgs = [] then Inr []
      else (case style_info of
              None \<Rightarrow> Inl (AttributeError ''style_info'')
            | Some info \<Rightarrow>
               (case those (map info imgs) of
                  None \<Rightarrow> Inl (KeyError ''style_info'')
                | Some entries \<Rightarrow> Inr (map fst entries))))"

definition on_click :: "event \<Rightarrow> session \<Rightarrow> session" where
  \<comment> \<open>the \<open>on_click\<close> callbacks of the two Back buttons (lines 418, 467); Streamlit
      runs the callback of a clicked button before the script\<close>
  "on_click ev s =
     (if clicked ev = BackToPreferences \<and> ss_step s = Some 2 then s\<lparr>ss_step := Some 1\<rparr>
      else if clicked ev = BackToUpload \<and> ss_step s = Some 3 then s\<lparr>ss_step := Some 2\<rparr>
      else s)"

definition swipe :: "event \<Rightarrow> string \<Rightarrow> nat \<Rightarrow> session \<Rightarrow> outcome \<times> session" where
  \<comment> \<open>lines 355-380: the image at \<open>current_index\<close> with its two buttons\<close>
  "swipe ev current_img i s =
     (case ss_style_info s of
        None \<Rightarrow> (Raised (AttributeError ''style_info''), s)
      | Some info \<Rightarrow>
         (case info current_img of
            None \<Rightarrow> (Raised (KeyError current_img), s)
          | Some img_style \<Rightarrow>
             (if clicked ev = Like
              then (case ss_liked_images s of
                      None \<Rightarrow> (Raised (AttributeError ''liked_images''), s)
                    | Some liked \<Rightarrow>
                       (Rerun, s\<lparr>ss_liked_images := Some (liked @ [current_img]),
                                 ss_current_index := Some (i + 1)\<rparr>))
              else if clicked ev = Dislike
              then (case ss_disliked_images s of
                      None \<Rightarrow> (Raised (AttributeError ''disliked_images''), s)
                    | Some disliked \<Rightarrow>
                       (Rerun, s\<lparr>ss_disliked_images := Some (disliked @ [current_img]),
                                 ss_current_index := Some (i + 1)\<rparr>))
              else (Finished, s))))"

definition summary :: "event \<Rightarrow> session \<Rightarrow> outcome \<times> session" where
  \<comment> \<open>lines 381-411: all images reviewed\<close>
  "summary ev s =
     (case ss_liked_images s of
        None \<Rightarrow> (Raised (AttributeError ''liked_images''), s)
      | Some liked \<Rightarrow>
         (case style_names (ss_style_info s) liked of
            Inl e \<Rightarrow> (Raised e, s)
          | Inr liked_styles \<Rightarrow>
             (case ss_disliked_images s of
                None \<Rightarrow> (Raised (AttributeError ''disliked_images''), s)
              | Some disliked \<Rightarrow>
                 (case style_names (ss_style_info s) disliked of
                    Inl e \<Rightarrow> (Raised e, s)
                  | Inr disliked_styles \<Rightarrow>
                     (if clicked ev = ResetStyles
                      then (Rerun, s\<lparr>ss_random_images := None, ss_style_info := None,
                                     ss_current_index := None, ss_liked_images := None,
                                     ss_disliked_images := None\<rparr>)
                      else if clicked ev = ContinueToUpload
                      then (if liked = [] then (Finished, s)
                            else (Rerun, s\<lparr>ss_step := Some 2\<rparr>))
                      else (Finished, s))))))"

definition preferences_step :: "app_env \<Rightarrow> event \<Rightarrow> session \<Rightarrow> outcome \<times> session" where
  \<comment> \<open>lines 332-411\<close>
  "preferences_step env ev s0 =
     (let styles = env_styles env in
      if styles = [] then (Stopped, s0)
      else
       (let s = (if ss_random_images s0 = None
                 then (case select_random_images (env_rng env) styles 5 of
                         (random_images, style_info) \<Rightarrow>
                           s0\<lparr>ss_random_images := Some random_images,
                              ss_style_info := Some style_info,
                              ss_current_index := Some 0,
                              ss_liked_images := Some [],
                              ss_disliked_images := Some []\<rparr>)
                 else s0)
        in case (ss_current_index s, ss_random_images s) of
             (Some i, Some random_images) \<Rightarrow>
               (if i < length random_images then swipe ev (random_images ! i) i s
                else summary ev s)
           | (None, _) \<Rightarrow> (Raised (AttributeError ''current_index''), s)
           | (_, None) \<Rightarrow> (Raised (AttributeError ''random_images''), s)))"

definition room_upload_step :: "app_env \<Rightarrow> event \<Rightarrow> session \<Rightarrow> outcome \<times> session" where
  \<comment> \<open>lines 414-460\<close>
  "room_upload_step env ev s =
     (case ss_liked_images s of
        None \<Rightarrow> (Raised (AttributeError ''liked_images''), s)
      | Some liked \<Rightarrow>
         (case style_names (ss_style_info s) liked of
            Inl e \<Rightarrow> (Raised e, s)
          | Inr liked_styles \<Rightarrow>
             (case uploaded_file ev of
                None \<Rightarrow> (Finished, s)
              | Some bytes \<Rightarrow>
                 (if \<not> pil_opens env bytes then (Raised UnidentifiedImageError, s)
                  else if clicked ev = GenerateDesign
                  then (case load_image_from_upload (uploaded_file ev) of
                          None \<Rightarrow> (Finished, s)
                        | Some encoded_image \<Rightarrow>
                           (if encoded_image \<noteq> []
                            then (Rerun, s\<lparr>ss_room_type := Some (sel_room_type ev),
                                           ss_room_size := Some (txt_room_size ev),
                                           ss_room_image := Some encoded_image,
                                           ss_step := Some 3\<rparr>)
                            else (Finished, s)))
                  else (Finished, s)))))"

definition ensure_design_options :: "app_env \<Rightarrow> session \<Rightarrow> error + session" where
  \<comment> \<open>lines 470-479: the options are generated only when the session has none\<close>
  "ensure_design_options env s =
     (if ss_design_options s \<noteq> None then Inr s
      else (case (ss_liked_images s, ss_disliked_images s, ss_room_image s, ss_room_type s,
                  ss_room_size s) of
              (Some liked, Some disliked, Some room_image, Some room_type, Some room_size) \<Rightarrow>
                Inr (s\<lparr>ss_design_options :=
                          Some (generate_design_options (env_world env) liked disliked room_image
                                  room_type room_size 5)\<rparr>)
            | _ \<Rightarrow> Inl (AttributeError ''session_state'')))"

definition results_step :: "app_env \<Rightarrow> event \<Rightarrow> session \<Rightarrow> outcome \<times> session" where
  \<comment> \<open>lines 463-503; \<open>st.tabs\<close> raises for an empty list of labels; the loop of
      lines 501-502 deletes every key (\<open>st.session_state.keys()\<close> runs over a copy)\<close>
  "results_step env ev s0 =
     (case ensure_design_options env s0 of
        Inl e \<Rightarrow> (Raised e, s0)
      | Inr s \<Rightarrow>
         (case ss_design_options s of
            None \<Rightarrow> (Raised (AttributeError ''design_options''), s)
          | Some design_options \<Rightarrow>
             (if design_options = []
              then (Raised (StreamlitAPIException ''st.tabs needs at least one tab label''), s)
              else (case ss_room_image s of
                      None \<Rightarrow> (Raised (AttributeError ''room_image''), s)
                    | Some room_image \<Rightarrow>
                       (if \<not> pil_opens env room_image then (Raised UnidentifiedImageError, s)
                        else if clicked ev = StartOver then (Rerun, empty_session)
                        else (Finished, s))))))"

definition main :: "app_env \<Rightarrow> event \<Rightarrow> session \<Rightarrow> outcome \<times> session" where
  \<comment> \<open>lines 306-503\<close>
  "main env ev s0 =
     (let s1 = on_click ev s0 in
      if env_api_key env = None \<or> env_api_key env = Some [] then (Stopped, s1)
      else
       (let s = (if ss_step s1 = None then s1\<lparr>ss_step := Some 1\<rparr> else s1) in
        if ss_step s = Some 1 then preferences_step env ev s
        else if ss_step s = Some 2 then room_upload_step env ev s
        else if ss_step s = Some 3 then results_step env ev s
        else (Finished, s)))"

inductive reachable :: "session \<Rightarrow> bool" where
  fresh: "reachable empty_session"
| run: "reachable s \<Longrightarrow> reachable (snd (main env ev s))"

definition flow_inv :: "session \<Rightarrow> bool" where
  \<comment> \<open>what holds of every session a sequence of runs can leave\<close>
  "flow_inv s =
     ((ss_step s = Some 2 \<or> ss_step s = Some 3 \<longrightarrow> (\<exists>l. l \<noteq> [] \<and> ss_liked_images s = Some l))
      \<and> (ss_step s = Some 3 \<longrightarrow> (\<exists>img. img \<noteq> [] \<and> ss_room_image s = Some img))
      \<and> (ss_step s = None \<or> ss_step s = Some 1 \<or> ss_step s = Some 2 \<or> ss_step s = Some 3))"

section \<open>Example worlds\<close>

definition example_stats :: stats where
  "example_stats = \<lparr>total_processed = 0, kept = 0, removed = 0, errors = 0,
     by_style = [''modern'' \<mapsto> \<lparr>st_total = 0, st_kept = 0, st_removed = 0, st_errors = 0\<rparr>]\<rparr>"

definition example_tree :: tree where
  "example_tree = [(''modern'', [''description.txt'', ''sofa_1.jpg'', ''sofa_1.txt''])]"

definition rejecting_client :: client where
  "rejecting_client =
     \<lparr>read_b64 = (\<lambda>p. Inr ''aGk=''),
      first_reply = (\<lambda>p. Inr (Some ''No'')),
      detail_reply = (\<lambda>p. Inr (Some ''The image shows a street.''))\<rparr>"

definition accepting_client :: client where
  "accepting_client =
     \<lparr>read_b64 = (\<lambda>p. Inr ''aGk=''),
      first_reply = (\<lambda>p. Inr (Some ''Yes'')),
      detail_reply = (\<lambda>p. Inr None)\<rparr>"

definition failing_client :: client where
  \<comment> \<open>the vision request raises for every image\<close>
  "failing_client =
     \<lparr>read_b64 = (\<lambda>p. Inr ''aGk=''),
      first_reply = (\<lambda>p. Inl (APIError ''Connection error.'')),
      detail_reply = (\<lambda>p. Inr None)\<rparr>"

definition counters :: "stats \<Rightarrow> nat \<times> nat \<times> nat \<times> nat" where
  \<comment> \<open>total_processed, kept, removed, errors\<close>
  "counters s = (total_processed s, kept s, removed s, errors s)"

definition replying_world :: "string \<Rightarrow> app_world" where
  \<comment> \<open>every file can be read and the chat request returns the given text\<close>
  "replying_world reply =
     \<lparr>app_read_b64 = (\<lambda>p. Inr ''aGk=''), app_create = (\<lambda>msg. Inr (Some reply))\<rparr>"



definition reply_with_preamble :: string where
  "reply_with_preamble =
     ''Here are five options:'' @ nl @ ''OPTION 1: Calm'' @ nl @ ''OPTION 2: Bold'' @ nl
     @ ''OPTION 3: Warm'' @ nl @ ''OPTION 4: Airy'' @ nl @ ''OPTION 5: Dark''"


definition same_order :: rng where
  \<comment> \<open>shuffles that leave every list as it is\<close>
  "same_order = \<lparr>shuffle_styles = (\<lambda>xs. xs), shuffle_paths = (\<lambda>xs. xs)\<rparr>"

definition example_styles :: "style list" where
  "example_styles =
     [\<lparr>s_name = ''Modern'', s_description = Some ''Clean lines.'',
       s_image_paths = [''room_styles/modern/a.jpg'', ''room_styles/modern/b.jpg'',
                        ''room_styles/modern/c.jpg'']\<rparr>,
      \<lparr>s_name = ''Boho'', s_description = Some ''Layered textiles.'',
       s_image_paths = [''room_styles/boho/d.jpg'']\<rparr>]"

definition example_photo :: "char \<Rightarrow> photo" where
  "example_photo c =
     \<lparr>p_id = Some [c],
      p_src_large = Some (''https://images.pexels.com/photos/'' @ [c] @ ''/large.jpeg''),
      p_photographer = Some ''Ada'',
      p_url = Some (''https://www.pexels.com/photo/'' @ [c]),
      p_width = 4000, p_height = 3000\<rparr>"

definition thirty_photos :: "photo list" where
  "thirty_photos = map example_photo ''abcdefghijklmnopqrstuvwxyzABCD''"

definition generous_pexels :: pexels where
  \<comment> \<open>every search returns 30 photos, every download decodes to 1280 x 853 pixels\<close>
  "generous_pexels =
     \<lparr>pexels_key = Some ''abc123'',
      get_test = Inr 200,
      get_search = (\<lambda>u. Inr (200, thirty_photos)),
      get_image = (\<lambda>u. Inr (200, Some (1280, 853)))\<rparr>"

definition thumbnail_pexels :: pexels where
  \<comment> \<open>every download decodes to 350 x 233 pixels\<close>
  "thumbnail_pexels =
     \<lparr>pexels_key = Some ''abc123'',
      get_test = Inr 200,
      get_search = (\<lambda>u. Inr (200, thirty_photos)),
      get_image = (\<lambda>u. Inr (200, Some (350, 233)))\<rparr>"

definition example_dl_style :: dl_style where
  "example_dl_style =
     \<lparr>d_name = ''Japandi'',
      d_keywords = [''wabi sabi'', ''low furniture'', ''natural wood'', ''neutral palette'',
                    ''paper lantern'']\<rparr>"

definition example_env :: app_env where
  "example_env =
     \<lparr>env_api_key = Some ''sk-test'', env_styles = example_styles, env_rng = same_order,
      env_world = replying_world ''A calm room.'', pil_opens = (\<lambda>b. b = ''aGk='')\<rparr>"

definition click :: "button \<Rightarrow> event" where
  \<comment> \<open>a click with nothing in the upload widget\<close>
  "click b = \<lparr>clicked = b, sel_room_type = ''Living Room'', txt_room_size = [],
              uploaded_file = None\<rparr>"

definition click_with_upload :: "button \<Rightarrow> string \<Rightarrow> event" where
  "click_with_upload b bytes =
     \<lparr>clicked = b, sel_room_type = ''Bedroom'', txt_room_size = ''3m x 4m'',
      uploaded_file = Some bytes\<rparr>"

definition after :: "event list \<Rightarrow> session" where
  \<comment> \<open>the session after the given runs, from a new session\<close>
  "after evs = fold (\<lambda>ev s. snd (main example_env ev s)) evs empty_session"

definition reviewed :: "event list" where
  \<comment> \<open>the page is opened and the three example images are liked, disliked, disliked\<close>
  "reviewed = [click NoButton, click Like, click Dislike, click Dislike]"

definition upload_reached :: session where
  "upload_reached = after (reviewed @ [click ContinueToUpload])"

definition results_reached :: session where
  "results_reached =
     after (reviewed @ [click ContinueToUpload, click_with_upload GenerateDesign ''aGk=''])"

section \<open>Curation: the theorems\<close>

lemma unlink_gone: "unlink fs p = Inr fs' \<Longrightarrow> \<not> exists fs' p"
  by (auto simp: unlink_def exists_def list_ex_iff split: if_splits)

lemma unlink_mono: "unlink fs p = Inr fs' \<Longrightarrow> exists fs' q \<Longrightarrow> exists fs q"
  by (fastforce simp: unlink_def exists_def list_ex_iff split: if_splits)

lemma unlink_ok: "exists fs p \<Longrightarrow> \<exists>fs'. unlink fs p = Inr fs'"
  by (simp add: unlink_def)

lemma evaluate_image_returns: "\<exists>good reason. evaluate_image cl p = Inr (good, reason)"
  by (auto simp: evaluate_image_def Let_def split: sum.splits)

lemma process_image_dry: "fst (process_image cl True d f acc) = fst acc"
  by (cases acc) (simp add: process_image_def Let_def split: sum.splits prod.splits)

lemma fold_fst_keep:
  assumes "\<And>x acc. fst (g x acc) = fst acc"
  shows "fst (fold g xs acc) = fst acc"
  using assms by (induction xs arbitrary: acc) simp_all

lemma process_style_dry: "fst (process_style cl True limit d acc) = fst acc"
  by (cases acc) (simp add: process_style_def Let_def fold_fst_keep process_image_dry)

text \<open>
  C1. In dry-run mode no file is deleted, whatever the classifier answers: the tree of
  style directories after the whole run is the tree before it, and so is the tree after
  the loop body for any single image. The client \<open>cl\<close> is arbitrary, so the reply may
  be an accept, a reject, an ambiguous text or an exception.
\<close>

theorem dry_run_never_deletes:
  "fst (process_directories api_key cl True limit base) = base
   \<and> fst (process_image cl True d f (fs, s)) = fs"
  by (auto simp: process_directories_def Let_def process_image_dry split: option.splits prod.splits)
     (metis fold_fst_keep process_style_dry fst_conv)

lemma delete_files_gone:
  assumes "exists fs (d, f)"
  shows "\<not> exists (fst (delete_files d f (fs, s))) (d, f)
       \<and> \<not> exists (fst (delete_files d f (fs, s))) (d, with_suffix f ''.txt'')"
proof -
  from assms obtain fs1 where u1: "unlink fs (d, f) = Inr fs1"
    using unlink_ok by blast
  have g1: "\<not> exists fs1 (d, f)" using u1 by (rule unlink_gone)
  show ?thesis
  proof (cases "exists fs1 (d, with_suffix f ''.txt'')")
    case False
    with u1 g1 show ?thesis by (simp add: delete_files_def Let_def)
  next
    case True
    then obtain fs2 where u2: "unlink fs1 (d, with_suffix f ''.txt'') = Inr fs2"
      using unlink_ok by blast
    have "\<not> exists fs2 (d, with_suffix f ''.txt'')" using u2 by (rule unlink_gone)
    moreover have "\<not> exists fs2 (d, f)" using u2 g1 unlink_mono by blast
    ultimately show ?thesis using u1 u2 True by (simp add: delete_files_def Let_def)
  qed
qed

text \<open>
  C3. In destructive mode (\<open>dry_run = False\<close>), for an image file that is on disk when
  the loop reaches it: if \<open>evaluate_image\<close> rejects it, then after the loop body
  neither the image nor its sidecar (the name with the suffix replaced by \<open>.txt\<close>)
  exists; if \<open>evaluate_image\<close> accepts it, the tree is unchanged, so neither the image
  nor its sidecar is deleted.
\<close>

theorem destructive_mode_rejected_deleted_accepted_kept:
  assumes "exists fs (d, f)"
  shows "(evaluate_image cl (d, f) = Inr (False, r) \<longrightarrow>
            \<not> exists (fst (process_image cl False d f (fs, s))) (d, f)
          \<and> \<not> exists (fst (process_image cl False d f (fs, s))) (d, with_suffix f ''.txt''))
       \<and> (evaluate_image cl (d, f) = Inr (True, r) \<longrightarrow>
            fst (process_image cl False d f (fs, s)) = fs)"
  using delete_files_gone [OF assms] by (simp add: process_image_def Let_def)

theorem destructive_mode_witness:
  "exists example_tree (''modern'', ''sofa_1.jpg'')
   \<and> exists example_tree (''modern'', ''sofa_1.txt'')
   \<and> evaluate_image rejecting_client (''modern'', ''sofa_1.jpg'')
       = Inr (False, ''The image shows a street.'')
   \<and> \<not> exists (fst (process_image rejecting_client False ''modern'' ''sofa_1.jpg''
                      (example_tree, example_stats))) (''modern'', ''sofa_1.jpg'')
   \<and> \<not> exists (fst (process_image rejecting_client False ''modern'' ''sofa_1.jpg''
                      (example_tree, example_stats))) (''modern'', ''sofa_1.txt'')
   \<and> evaluate_image accepting_client (''modern'', ''sofa_1.jpg'')
       = Inr (True, ''Good quality interior design image'')
   \<and> fst (process_image accepting_client False ''modern'' ''sofa_1.jpg''
            (example_tree, example_stats)) = example_tree"
proof -
  have ex: "exists example_tree (''modern'', ''sofa_1.jpg'')" by code_simp
  have ex2: "exists example_tree (''modern'', ''sofa_1.txt'')" by code_simp
  have rej: "evaluate_image rejecting_client (''modern'', ''sofa_1.jpg'')
       = Inr (False, ''The image shows a street.'')" by code_simp
  have acc: "evaluate_image accepting_client (''modern'', ''sofa_1.jpg'')
       = Inr (True, ''Good quality interior design image'')" by code_simp
  have sfx: "with_suffix ''sofa_1.jpg'' ''.txt'' = ''sofa_1.txt''" by code_simp
  from destructive_mode_rejected_deleted_accepted_kept
         [OF ex, of rejecting_client "''The image shows a street.''" example_stats]
       destructive_mode_rejected_deleted_accepted_kept
         [OF ex, of accepting_client "''Good quality interior design image''" example_stats]
       ex ex2 rej acc sfx
  show ?thesis by simp
qed

text \<open>
  C2, evaluated. The vision request raises for \<open>sofa_1.jpg\<close> and the run is
  destructive. \<open>evaluate_image\<close> catches the exception itself and answers
  \<open>(False, "API error: ...")\<close>, which the loop cannot tell from a rejection: the image
  is counted as removed, the error counter stays 0, and the image and its sidecar are
  deleted. The handler of the loop that counts an error and leaves the file alone
  (lines 240-243) is never reached this way.
\<close>

theorem api_failure_counted_removed_and_deleted:
  "evaluate_image failing_client (''modern'', ''sofa_1.jpg'')
     = Inr (False, ''API error: Connection error.'')
   \<and> map_prod id (map_option counters)
       (process_directories (Some ''sk-test'') failing_client False None (Some example_tree))
     = (Some [(''modern'', [''description.txt''])], Some (1, 0, 1, 0))"
  by code_simp

lemma api_failure_is_a_rejection:
  assumes "read_b64 cl p = Inr b" and "b \<noteq> []" and "first_reply cl p = Inl e"
  shows "evaluate_image cl p = Inr (False, ''API error: '' @ str_error e)"
  using assms by (simp add: evaluate_image_def encode_image_def)

lemma in_style_fields:
  "total_processed (in_style n f s) = total_processed s \<and> kept (in_style n f s) = kept s
   \<and> removed (in_style n f s) = removed s \<and> errors (in_style n f s) = errors s"
  by (simp add: in_style_def split: option.splits)

lemma rejection_is_counted_removed:
  assumes "evaluate_image cl (d, f) = Inr (False, r)"
  shows "counters (snd (process_image cl True d f (fs, s)))
           = (total_processed s + 1, kept s, removed s + 1, errors s)"
  using assms
  by (simp add: process_image_def Let_def count_total_def count_removed_def counters_def
        in_style_fields)

section \<open>Design options: the theorems\<close>

lemma is_marker_nonempty: "is_marker word part \<Longrightarrow> part \<noteq> []"
  by (auto simp: is_marker_def contains_def str_find_def)

lemma split_marked_count:
  assumes "split_marked word parts (cur, opts) = (cur', opts')" and "cur \<noteq> []"
  shows "cur' \<noteq> [] \<and> length opts' = length opts + length (filter (is_marker word) parts)"
  using assms
proof (induction parts arbitrary: cur opts)
  case Nil
  then show ?case by simp
next
  case (Cons part parts)
  show ?case
  proof (cases "is_marker word part")
    case True
    with Cons.prems have "split_marked word parts (part, opts @ [strip cur]) = (cur', opts')"
      by simp
    moreover have "part \<noteq> []" using True by (rule is_marker_nonempty)
    ultimately show ?thesis using Cons.IH True by fastforce
  next
    case False
    with Cons.prems have "split_marked word parts (cur @ nl @ part, opts) = (cur', opts')"
      by simp
    moreover have "cur @ nl @ part \<noteq> []" using Cons.prems by simp
    ultimately show ?thesis using Cons.IH False by fastforce
  qed
qed

lemma split_on_nonempty: "split_on c s \<noteq> []"
  by (induction s) (auto split: list.splits)

lemma split_by_marker_length:
  "length (split_by_marker word resp) =
     Suc (length (filter (is_marker word) (tl (split_on (CHR 0x0A) resp))))"
proof -
  obtain part parts where sp: "split_on (CHR 0x0A) resp = part # parts"
    using split_on_nonempty by (cases "split_on (CHR 0x0A) resp") auto
  obtain cur' opts' where r: "split_marked word (part # parts) ([], []) = (cur', opts')"
    by (cases "split_marked word (part # parts) ([], [])") auto
  have "\<exists>cur. cur \<noteq> [] \<and> split_marked word parts (cur, []) = (cur', opts')"
  proof (cases "is_marker word part")
    case True
    then show ?thesis using r is_marker_nonempty by auto
  next
    case False
    then show ?thesis using r by (auto simp: nl_def)
  qed
  then obtain cur where "cur \<noteq> []" "split_marked word parts (cur, []) = (cur', opts')" by blast
  then have "cur' \<noteq> [] \<and> length opts' = length (filter (is_marker word) parts)"
    using split_marked_count by fastforce
  then show ?thesis using sp r by (simp add: split_by_marker_def)
qed

lemma split_numbered_length:
  "\<forall>p \<in> set parts. contains resp p \<Longrightarrow> length (split_numbered resp parts) = length parts"
  by (induction resp parts rule: split_numbered.induct) (auto simp: contains_def)

lemma str_nat_1: "str_nat 1 = ''1''"
  by code_simp

lemma numbered_parts_nonempty:
  assumes "contains resp ''1.''" and "0 < n"
  shows "numbered_parts n resp \<noteq> []"
proof -
  have "(1::nat) \<in> set [1 ..< n + 1]" using assms(2) by (simp del: upt_Suc)
  then have "''1.'' \<in> set (map (\<lambda>i. str_nat i @ ''.'') [1 ..< n + 1])"
    using str_nat_1 by (metis (no_types, lifting) append_Cons append_Nil image_eqI list.set_map)
  then have "''1.'' \<in> set (numbered_parts n resp)"
    using assms(1) by (simp add: numbered_parts_def)
  then show ?thesis by auto
qed

lemma parse_options_nonempty: "0 < n \<Longrightarrow> parse_options n resp \<noteq> []"
proof -
  assume n: "0 < n"
  have a: "\<And>word. split_by_marker word resp \<noteq> []"
    using split_by_marker_length by (metis length_0_conv nat.distinct(1))
  have b: "contains resp ''1.'' \<Longrightarrow> split_numbered resp (numbered_parts n resp) \<noteq> []"
  proof -
    assume c: "contains resp ''1.''"
    have "length (split_numbered resp (numbered_parts n resp)) = length (numbered_parts n resp)"
      by (rule split_numbered_length) (simp add: numbered_parts_def)
    then show ?thesis using numbered_parts_nonempty [OF c n] by auto
  qed
  show ?thesis using a b by (simp add: parse_options_def)
qed

lemma pad_options_length:
  "options \<noteq> [] \<Longrightarrow> \<exists>padded. pad_options n options = Inr padded \<and> length padded = max n (length options)"
proof (induction n options rule: pad_options.induct)
  case (1 n options)
  show ?case
  proof (cases "length options < n")
    case False
    then show ?thesis by (simp add: pad_options.simps [of n options] max_def)
  next
    case True
    from "1.prems" obtain first rest where o: "options = first # rest" by (cases options) auto
    let ?next = "options @ [''Design Variation '' @ str_nat (length options + 1) @ '':'' @ nl @ first]"
    have "\<exists>padded. pad_options n ?next = Inr padded \<and> length padded = max n (length ?next)"
      using "1.IH" [OF True o] by simp
    then show ?thesis using True o by (subst pad_options.simps) (auto simp: max_def)
  qed
qed

lemma pad_options_empty: "pad_options 0 [] = Inr []"
  by (simp add: pad_options.simps)

lemma finish_options_length:
  "\<exists>options. finish_options n (parse_options n resp) = Inr options \<and> length options = n"
proof (cases "n = 0")
  case True
  then show ?thesis
    by (cases "parse_options 0 resp")
       (auto simp: finish_options_def pad_options.simps [of 0])
next
  case False
  then have "parse_options n resp \<noteq> []" by (simp add: parse_options_nonempty)
  from pad_options_length [OF this, of n] show ?thesis
    by (auto simp: finish_options_def max_def)
qed

lemma parse_options_marker_first:
  assumes "contains (upper resp) ''OPTION 1''"
    and "is_marker ''OPTION '' (hd (split_on (CHR 0x0A) resp))"
  shows "length (parse_options n resp)
           = length (filter (is_marker ''OPTION '') (split_on (CHR 0x0A) resp))"
proof -
  obtain part parts where sp: "split_on (CHR 0x0A) resp = part # parts"
    using split_on_nonempty by (cases "split_on (CHR 0x0A) resp") auto
  then show ?thesis
    using assms by (simp add: parse_options_def split_by_marker_length)
qed

lemma parse_options_preamble:
  assumes "contains (upper resp) ''OPTION 1''"
    and "\<not> is_marker ''OPTION '' (hd (split_on (CHR 0x0A) resp))"
  shows "length (parse_options n resp)
           = Suc (length (filter (is_marker ''OPTION '') (split_on (CHR 0x0A) resp)))"
proof -
  obtain part parts where sp: "split_on (CHR 0x0A) resp = part # parts"
    using split_on_nonempty by (cases "split_on (CHR 0x0A) resp") auto
  then show ?thesis
    using assms by (simp add: parse_options_def split_by_marker_length)
qed

lemma parse_options_fallback:
  assumes "\<not> contains (upper resp) ''OPTION 1''"
    and "\<not> contains (upper resp) ''DESIGN OPTION 1''"
    and "\<not> (contains resp ''1.'' \<and> contains resp ''2.'')"
  shows "parse_options n resp = [resp]"
  using assms by (auto simp: parse_options_def)

lemma split_marked_body:
  "\<forall>l \<in> set body. \<not> is_marker w l
     \<Longrightarrow> split_marked w (body @ rest) (cur, opts) = split_marked w rest (join_lines cur body, opts)"
  by (induction body arbitrary: cur) (simp_all add: join_lines_def)

lemma join_lines_nonempty: "m \<noteq> [] \<Longrightarrow> join_lines m b \<noteq> []"
  unfolding join_lines_def by (induction b arbitrary: m) simp_all

lemma split_marked_blocks:
  assumes "\<forall>(m, b) \<in> set blocks. is_marker w m \<and> (\<forall>l \<in> set b. \<not> is_marker w l)"
  shows "flush (split_marked w (concat (map (\<lambda>(m, b). m # b) blocks)) (cur, opts))
           = flush (cur, opts) @ map (\<lambda>(m, b). strip (join_lines m b)) blocks"
  using assms
proof (induction blocks arbitrary: cur opts)
  case Nil
  then show ?case by simp
next
  case (Cons blk blocks)
  obtain m b where blk: "blk = (m, b)" by (cases blk)
  have mk: "is_marker w m" and body: "\<forall>l \<in> set b. \<not> is_marker w l"
    using Cons.prems blk by auto
  have rest: "\<forall>(m, b) \<in> set blocks. is_marker w m \<and> (\<forall>l \<in> set b. \<not> is_marker w l)"
    using Cons.prems by auto
  let ?lines = "concat (map (\<lambda>(m, b). m # b) blocks)"
  have "split_marked w (concat (map (\<lambda>(m, b). m # b) (blk # blocks))) (cur, opts)
          = split_marked w (b @ ?lines) (m, flush (cur, opts))"
    using mk by (simp add: blk flush_def)
  also have "\<dots> = split_marked w ?lines (join_lines m b, flush (cur, opts))"
    using body by (rule split_marked_body)
  finally have "flush (split_marked w (concat (map (\<lambda>(m, b). m # b) (blk # blocks))) (cur, opts))
          = flush (join_lines m b, flush (cur, opts)) @ map (\<lambda>(m, b). strip (join_lines m b)) blocks"
    using Cons.IH [OF rest] by simp
  moreover have "join_lines m b \<noteq> []"
    using mk is_marker_nonempty join_lines_nonempty by blast
  ultimately show ?case by (simp add: blk flush_def)
qed

lemma parse_options_blocks:
  assumes "contains (upper resp) ''OPTION 1''"
    and "split_on (CHR 0x0A) resp = concat (map (\<lambda>(m, b). m # b) blocks)"
    and "\<forall>(m, b) \<in> set blocks. is_marker ''OPTION '' m \<and> (\<forall>l \<in> set b. \<not> is_marker ''OPTION '' l)"
  shows "parse_options n resp = map (\<lambda>(m, b). strip (join_lines m b)) blocks"
proof -
  have "split_by_marker ''OPTION '' resp
          = flush (split_marked ''OPTION '' (split_on (CHR 0x0A) resp) ([], []))"
    by (simp add: split_by_marker_def flush_def split: prod.splits)
  also have "\<dots> = flush ([], []) @ map (\<lambda>(m, b). strip (join_lines m b)) blocks"
    unfolding assms(2) using assms(3) by (rule split_marked_blocks)
  finally show ?thesis using assms(1) by (simp add: parse_options_def flush_def)
qed

text \<open>
  C4, evaluated. The reply has one line of introduction and then five lines
  \<open>OPTION 1:\<close> to \<open>OPTION 5:\<close>. The loop starts \<open>current_option\<close> with the
  introduction and appends it as a segment at the first marker, so the split gives six
  segments; truncation to five then drops \<open>OPTION 5\<close>. The function returns the
  introduction and the first four options, not the five marked segments. (The
  branch for numbered lists cuts the reply at the first marker instead and loses no
  option this way. For a reply whose first line is a marker, \<open>parse_options_blocks\<close>
  gives the marked segments in their order.)
\<close>

theorem preamble_becomes_first_option:
  "parse_options 5 reply_with_preamble =
     [''Here are five options:'', ''OPTION 1: Calm'', ''OPTION 2: Bold'', ''OPTION 3: Warm'',
      ''OPTION 4: Airy'', ''OPTION 5: Dark'']
   \<and> generate_design_options (replying_world reply_with_preamble)
        [''room_styles/modern/sofa_1.jpg''] [] ''aGk='' ''Bedroom'' [] 5 =
     [''Here are five options:'', ''OPTION 1: Calm'', ''OPTION 2: Bold'', ''OPTION 3: Warm'',
      ''OPTION 4: Airy'']"
  by code_simp

lemma try_generate_sources:
  "try_generate w liked disliked room room_type room_size n = Inl e \<longleftrightarrow>
     user_content w liked disliked room room_type room_size n = Inl e
     \<or> (\<exists>msg. user_content w liked disliked room room_type room_size n = Inr msg
              \<and> (app_create w msg = Inl e
                 \<or> app_create w msg = Inr None \<and> e = AttributeError (no_attribute ''upper'')))"
proof (cases "user_content w liked disliked room room_type room_size n")
  case (Inl e')
  then show ?thesis by (simp add: try_generate_def)
next
  case (Inr msg)
  show ?thesis
  proof (cases "app_create w msg")
    case (Inl e')
    with Inr show ?thesis by (simp add: try_generate_def)
  next
    case r: (Inr c)
    show ?thesis
    proof (cases c)
      case None
      with Inr r show ?thesis by (auto simp: try_generate_def)
    next
      case (Some resp)
      with Inr r finish_options_length [of n resp] show ?thesis
        by (auto simp: try_generate_def)
    qed
  qed
qed




section \<open>Example images: the theorems\<close>

lemma selected_of_length: "length (selected_of r st) \<le> 2"
  by (simp add: selected_of_def Let_def)

lemma selected_of_subset: "set (selected_of r st) \<subseteq> set (shuffle_paths r (s_image_paths st))"
  by (auto simp: selected_of_def Let_def dest: in_set_takeD)

lemma fold_add_image:
  "\<exists>chunk. fst (fold (add_image n st) imgs acc) = fst acc @ chunk
     \<and> length chunk \<le> length imgs \<and> set chunk \<subseteq> set imgs
     \<and> length (fst acc @ chunk) \<le> max n (length (fst acc))
     \<and> (\<forall>p. snd (fold (add_image n st) imgs acc) p =
           (if p \<in> set chunk then Some (entry_of st)
            else snd acc p))"
proof (induction imgs arbitrary: acc)
  case Nil
  then show ?case by simp
next
  case (Cons img imgs)
  obtain all info where acc: "acc = (all, info)" by (cases acc)
  show ?case
  proof (cases "length all < n")
    case False
    then have "add_image n st img acc = acc" by (simp add: acc add_image_def)
    moreover from Cons.IH [of acc]
    obtain chunk where "fst (fold (add_image n st) imgs acc) = fst acc @ chunk"
      "length chunk \<le> length imgs" "set chunk \<subseteq> set imgs"
      "length (fst acc @ chunk) \<le> max n (length (fst acc))"
      "\<forall>p. snd (fold (add_image n st) imgs acc) p =
           (if p \<in> set chunk then Some (entry_of st)
            else snd acc p)"
      by blast
    ultimately show ?thesis
      by (intro exI [of _ chunk]) (auto simp: le_SucI)
  next
    case True
    let ?e = "entry_of st"
    have a: "add_image n st img acc = (all @ [img], info(img \<mapsto> ?e))"
      using True by (simp add: acc add_image_def)
    from Cons.IH [of "(all @ [img], info(img \<mapsto> ?e))"]
    obtain chunk where c: "fst (fold (add_image n st) imgs (all @ [img], info(img \<mapsto> ?e))) = (all @ [img]) @ chunk"
      "length chunk \<le> length imgs" "set chunk \<subseteq> set imgs"
      "length ((all @ [img]) @ chunk) \<le> max n (length (all @ [img]))"
      "\<forall>p. snd (fold (add_image n st) imgs (all @ [img], info(img \<mapsto> ?e))) p =
           (if p \<in> set chunk then Some ?e else (info(img \<mapsto> ?e)) p)"
      by auto
    show ?thesis
      apply (rule exI [of _ "img # chunk"])
      using c a True by (auto simp: acc)
  qed
qed


lemma list_all2_no_chunks:
  "(\<And>x. P [] x) \<Longrightarrow> list_all2 P (replicate (length xs) []) xs"
  by (induction xs) auto

lemma select_loop_chunks:
  "\<exists>chunks. fst (select_loop r n styles acc) = fst acc @ concat chunks
     \<and> list_all2 (\<lambda>chunk st. length chunk \<le> 2
                     \<and> set chunk \<subseteq> set (shuffle_paths r (s_image_paths st))) chunks styles"
proof (induction styles arbitrary: acc)
  case Nil
  then show ?case by simp
next
  case (Cons st styles)
  show ?case
  proof (cases "length (fst acc) \<ge> n")
    case True
    have "list_all2 (\<lambda>chunk st. length chunk \<le> 2
             \<and> set chunk \<subseteq> set (shuffle_paths r (s_image_paths st)))
            (replicate (length (st # styles)) []) (st # styles)"
      by (rule list_all2_no_chunks) simp
    moreover have "concat (replicate (length (st # styles)) ([] :: string list)) = []"
      by simp
    ultimately show ?thesis using True
      by (intro exI [of _ "replicate (length (st # styles)) []"]) simp
  next
    case False
    let ?acc = "fold (add_image n st) (selected_of r st) acc"
    obtain chunk where c: "fst ?acc = fst acc @ chunk"
        "length chunk \<le> length (selected_of r st)" "set chunk \<subseteq> set (selected_of r st)"
      using fold_add_image [of n st "selected_of r st" acc] by blast
    obtain chunks where cs: "fst (select_loop r n styles ?acc) = fst ?acc @ concat chunks"
        "list_all2 (\<lambda>chunk st. length chunk \<le> 2
             \<and> set chunk \<subseteq> set (shuffle_paths r (s_image_paths st))) chunks styles"
      using Cons.IH [of ?acc] by blast
    have "length chunk \<le> 2" using c(2) selected_of_length [of r st] by linarith
    moreover have "set chunk \<subseteq> set (shuffle_paths r (s_image_paths st))"
      using c(3) selected_of_subset [of r st] by blast
    ultimately show ?thesis using False c(1) cs
      by (intro exI [of _ "chunk # chunks"]) simp
  qed
qed

lemma select_loop_length:
  "length (fst (select_loop r n styles acc)) \<le> max n (length (fst acc))"
proof (induction styles arbitrary: acc)
  case Nil
  then show ?case by simp
next
  case (Cons st styles)
  show ?case
  proof (cases "length (fst acc) \<ge> n")
    case True
    then show ?thesis by simp
  next
    case False
    let ?acc = "fold (add_image n st) (selected_of r st) acc"
    obtain chunk where c: "fst ?acc = fst acc @ chunk"
        "length (fst acc @ chunk) \<le> max n (length (fst acc))"
      using fold_add_image [of n st "selected_of r st" acc] by blast
    have "length (fst (select_loop r n styles ?acc)) \<le> max n (length (fst ?acc))"
      by (rule Cons.IH)
    then show ?thesis using c False by (simp add: max_def split: if_splits)
  qed
qed

lemma select_loop_info:
  assumes "\<forall>p \<in> set (fst acc). \<exists>st \<in> S. snd acc p = Some (entry_of st)"
    and "set styles \<subseteq> S"
  shows "\<forall>p \<in> set (fst (select_loop r n styles acc)).
           \<exists>st \<in> S. snd (select_loop r n styles acc) p = Some (entry_of st)"
  using assms
proof (induction styles arbitrary: acc)
  case Nil
  then show ?case by simp
next
  case (Cons st styles)
  show ?case
  proof (cases "length (fst acc) \<ge> n")
    case True
    then show ?thesis using Cons.prems by simp
  next
    case False
    let ?acc = "fold (add_image n st) (selected_of r st) acc"
    obtain chunk where c: "fst ?acc = fst acc @ chunk"
        "\<forall>p. snd ?acc p = (if p \<in> set chunk then Some (entry_of st) else snd acc p)"
      using fold_add_image [of n st "selected_of r st" acc] by blast
    have "st \<in> S" using Cons.prems(2) by simp
    then have "\<forall>p \<in> set (fst ?acc). \<exists>st \<in> S. snd ?acc p = Some (entry_of st)"
      using c Cons.prems(1) by auto
    moreover have "set styles \<subseteq> S" using Cons.prems(2) by simp
    ultimately have "\<forall>p \<in> set (fst (select_loop r n styles ?acc)).
           \<exists>st \<in> S. snd (select_loop r n styles ?acc) p = Some (entry_of st)"
      by (rule Cons.IH)
    then show ?thesis using False by simp
  qed
qed

text \<open>
  C9. For every list of styles, every count \<open>num_images\<close> and every outcome of the
  shuffles: \<open>select_random_images\<close> returns at most \<open>num_images\<close> paths; the list
  returned is the concatenation of one chunk per style (in the shuffled order), each
  chunk holding at most 2 paths, all taken from that style; and \<open>style_info\<close> has an
  entry for every path returned, the name and description of one of the styles.
\<close>

theorem select_random_images_bounds:
  "length (fst (select_random_images r styles n)) \<le> n
   \<and> (\<exists>chunks. fst (select_random_images r styles n) = concat chunks
         \<and> list_all2 (\<lambda>chunk st. length chunk \<le> 2
                         \<and> set chunk \<subseteq> set (shuffle_paths r (s_image_paths st)))
              chunks (shuffle_styles r styles))
   \<and> (\<forall>p \<in> set (fst (select_random_images r styles n)).
         \<exists>st \<in> set (shuffle_styles r styles).
           snd (select_random_images r styles n) p = Some (entry_of st))"
proof -
  have "length (fst (select_random_images r styles n)) \<le> n"
    using select_loop_length [of r n "shuffle_styles r styles" "([], Map.empty)"]
    by (simp add: select_random_images_def)
  moreover have "\<exists>chunks. fst (select_random_images r styles n) = concat chunks
         \<and> list_all2 (\<lambda>chunk st. length chunk \<le> 2
                         \<and> set chunk \<subseteq> set (shuffle_paths r (s_image_paths st)))
              chunks (shuffle_styles r styles)"
    using select_loop_chunks [of r n "shuffle_styles r styles" "([], Map.empty)"]
    by (simp add: select_random_images_def)
  moreover have "\<forall>p \<in> set (fst (select_random_images r styles n)).
         \<exists>st \<in> set (shuffle_styles r styles).
           snd (select_random_images r styles n) p = Some (entry_of st)"
    unfolding select_random_images_def
    by (rule select_loop_info) simp_all
  ultimately show ?thesis by blast
qed

theorem select_random_images_witness:
  "fst (select_random_images same_order example_styles 5)
     = [''room_styles/modern/a.jpg'', ''room_styles/modern/b.jpg'', ''room_styles/boho/d.jpg'']
   \<and> length (fst (select_random_images same_order example_styles 5)) \<le> 5
   \<and> ''room_styles/boho/d.jpg'' \<in> set (fst (select_random_images same_order example_styles 5))
   \<and> (\<exists>st \<in> set example_styles.
         snd (select_random_images same_order example_styles 5) ''room_styles/boho/d.jpg''
           = Some (entry_of st))
   \<and> snd (select_random_images same_order example_styles 5) ''room_styles/boho/d.jpg''
        = Some (''Boho'', ''Layered textiles.'')"
proof -
  have e: "fst (select_random_images same_order example_styles 5)
     = [''room_styles/modern/a.jpg'', ''room_styles/modern/b.jpg'', ''room_styles/boho/d.jpg'']"
    by code_simp
  have v: "snd (select_random_images same_order example_styles 5) ''room_styles/boho/d.jpg''
        = Some (''Boho'', ''Layered textiles.'')"
    by code_simp
  have s: "shuffle_styles same_order example_styles = example_styles"
    by (simp add: same_order_def)
  from select_random_images_bounds [of same_order example_styles 5] e v s
  show ?thesis by simp
qed

section \<open>Image acquisition: the theorems\<close>

lemma download_photo_step:
  "fst (download_photo px kw ph st) = fst st \<or> fst (download_photo px kw ph st) = fst st + 1"
  by (cases st) (auto simp: download_photo_def Let_def split: option.splits sum.splits)

lemma download_photos_bound:
  "fst (download_photos px kw m photos st) \<le> fst st + length photos"
proof (induction photos arbitrary: st)
  case Nil
  then show ?case by simp
next
  case (Cons ph photos)
  have "fst (download_photos px kw m photos (download_photo px kw ph st))
          \<le> fst (download_photo px kw ph st) + length photos"
    by (rule Cons.IH)
  moreover have "fst (download_photo px kw ph st) \<le> fst st + 1"
    using download_photo_step [of px kw ph st] by auto
  ultimately show ?case by auto
qed

lemma try_queries_bound:
  "fst st \<le> k \<Longrightarrow> fst (try_queries px kw m k queries st) \<le> k"
proof (induction queries arbitrary: st)
  case Nil
  then show ?case by simp
next
  case (Cons q queries)
  show ?case
  proof (cases "fst st \<ge> k")
    case True
    then show ?thesis using Cons.prems by simp
  next
    case False
    show ?thesis
    proof (cases "get_search px (search_url q)")
      case (Inl e)
      then show ?thesis using False Cons by simp
    next
      case (Inr r)
      obtain status_code photos where r: "r = (status_code, photos)" by (cases r)
      let ?st = "download_photos px kw m (take (k - fst st) photos) st"
      have "fst ?st \<le> fst st + length (take (k - fst st) photos)"
        by (rule download_photos_bound)
      then have b: "fst ?st \<le> k" using False by simp
      then have "fst (try_queries px kw m k queries ?st) \<le> k" by (rule Cons.IH)
      then show ?thesis using Inr r False b Cons by (simp add: Let_def)
    qed
  qed
qed

lemma all_keywords_bound:
  "fst st \<le> k \<Longrightarrow> fst (all_keywords px name m k kws st) \<le> k"
  unfolding all_keywords_def
  by (induction kws arbitrary: st) (simp_all add: try_queries_bound)

lemma download_pexels_images_bound:
  "download_pexels_images px st m = Inr (downloaded, files)
     \<Longrightarrow> downloaded \<le> m div length (d_keywords st)"
  using all_keywords_bound [of "(0, [])" "m div length (d_keywords st)" px "d_name st" m "d_keywords st"]
  by (auto simp: download_pexels_images_def Let_def split: if_splits sum.splits)

text \<open>
  C5, evaluated. The style has five keywords, the quota is the default of 70, and every
  search returns 30 photos that all decode to 1280 x 853 pixels. The run saves 14
  images: \<open>total_downloaded\<close> counts the images of the whole style and is never
  reset, but it is compared with \<open>images_per_keyword = 70 // 5\<close> at the head of the
  query loop and in \<open>remaining\<close>, so the first keyword fills the bound and every
  later keyword leaves its query loop at once. By \<open>download_pexels_images_bound\<close> no
  world gives more than \<open>max_images // len(search_keywords)\<close>.
\<close>

theorem per_keyword_bound_caps_style_total:
  "map_sum id fst (download_pexels_images generous_pexels example_dl_style IMAGES_PER_STYLE)
     = Inr 14"
  by code_simp

text \<open>
  C6. For any photo, whatever width and height the API reports for it: if the image
  decoded from the download is narrower or lower than \<open>MIN_IMAGE_SIZE\<close> (400), the
  loop body leaves the count and the files written as they are, so neither the image
  nor its sidecar is written; and if the loop body writes anything, the download had
  status 200 and decoded to a width and a height of at least 400.
\<close>

theorem small_images_rejected:
  "(p_src_large ph = Some image_url
      \<and> get_image px image_url = Inr (status_code, Some (width, height))
      \<and> (width < MIN_IMAGE_SIZE \<or> height < MIN_IMAGE_SIZE)
      \<longrightarrow> download_photo px keyword ph (downloaded, files) = (downloaded, files))
   \<and> (download_photo px keyword ph (downloaded, files) \<noteq> (downloaded, files)
      \<longrightarrow> (\<exists>image_url width height.
             p_src_large ph = Some image_url
           \<and> get_image px image_url = Inr (200, Some (width, height))
           \<and> width \<ge> MIN_IMAGE_SIZE \<and> height \<ge> MIN_IMAGE_SIZE \<and> MIN_IMAGE_SIZE = 400))"
  by (auto simp: download_photo_def MIN_IMAGE_SIZE_def Let_def split: option.splits sum.splits)

theorem small_images_rejected_witness:
  "p_src_large (example_photo (CHR ''c'')) = Some ''https://images.pexels.com/photos/c/large.jpeg''
   \<and> p_width (example_photo (CHR ''c'')) = 4000 \<and> p_height (example_photo (CHR ''c'')) = 3000
   \<and> get_image thumbnail_pexels ''https://images.pexels.com/photos/c/large.jpeg''
        = Inr (200, Some (350, 233))
   \<and> (350 < MIN_IMAGE_SIZE \<or> 233 < MIN_IMAGE_SIZE)
   \<and> download_photo thumbnail_pexels ''wabi sabi'' (example_photo (CHR ''c'')) (0, []) = (0, [])
   \<and> download_photo generous_pexels ''wabi sabi'' (example_photo (CHR ''c'')) (0, [])
        = (1, [''wabi_sabi_c.jpg'', ''wabi_sabi_c.txt''])
   \<and> (\<exists>image_url width height.
          p_src_large (example_photo (CHR ''c'')) = Some image_url
        \<and> get_image generous_pexels image_url = Inr (200, Some (width, height))
        \<and> width \<ge> MIN_IMAGE_SIZE \<and> height \<ge> MIN_IMAGE_SIZE)"
proof -
  have u: "p_src_large (example_photo (CHR ''c''))
             = Some ''https://images.pexels.com/photos/c/large.jpeg''"
    by (simp add: example_photo_def)
  have m: "p_width (example_photo (CHR ''c'')) = 4000 \<and> p_height (example_photo (CHR ''c'')) = 3000"
    by (simp add: example_photo_def)
  have g: "get_image thumbnail_pexels ''https://images.pexels.com/photos/c/large.jpeg''
             = Inr (200, Some (350, 233))"
    by (simp add: thumbnail_pexels_def)
  have small: "(350::int) < MIN_IMAGE_SIZE \<or> (233::int) < MIN_IMAGE_SIZE"
    by (simp add: MIN_IMAGE_SIZE_def)
  have d: "download_photo generous_pexels ''wabi sabi'' (example_photo (CHR ''c'')) (0, [])
             = (1, [''wabi_sabi_c.jpg'', ''wabi_sabi_c.txt''])"
    by code_simp
  from small_images_rejected
         [of "example_photo (CHR ''c'')" "''https://images.pexels.com/photos/c/large.jpeg''"
             thumbnail_pexels 200 350 233 "''wabi sabi''" 0 "[]"]
       small_images_rejected
         [of "example_photo (CHR ''c'')" "''https://images.pexels.com/photos/c/large.jpeg''"
             generous_pexels 200 350 233 "''wabi sabi''" 0 "[]"]
       u m g small d
  show ?thesis by auto
qed

section \<open>The interactive flow: the theorems\<close>

lemma swipe_effect:
  "ss_step (snd (swipe ev img i s)) = ss_step s
   \<and> ss_room_image (snd (swipe ev img i s)) = ss_room_image s"
  by (simp add: swipe_def split: option.splits)

lemma summary_effect:
  "ss_room_image (snd (summary ev s)) = ss_room_image s
   \<and> (ss_step (snd (summary ev s)) = ss_step s
      \<or> ss_step (snd (summary ev s)) = Some 2
        \<and> (\<exists>l. l \<noteq> [] \<and> ss_liked_images s = Some l \<and> ss_liked_images (snd (summary ev s)) = Some l))"
  by (simp add: summary_def split: option.splits sum.splits)

lemma preferences_step_effect:
  "ss_room_image (snd (preferences_step env ev s)) = ss_room_image s
   \<and> (ss_step (snd (preferences_step env ev s)) = ss_step s
      \<or> ss_step (snd (preferences_step env ev s)) = Some 2
        \<and> (\<exists>l. l \<noteq> [] \<and> ss_liked_images s = Some l
                \<and> ss_liked_images (snd (preferences_step env ev s)) = Some l))"
proof -
  obtain imgs info where sel: "select_random_images (env_rng env) (env_styles env) 5 = (imgs, info)"
    by (cases "select_random_images (env_rng env) (env_styles env) 5")
  let ?init = "s\<lparr>ss_random_images := Some imgs, ss_style_info := Some info,
                  ss_current_index := Some 0, ss_liked_images := Some [],
                  ss_disliked_images := Some []\<rparr>"
  show ?thesis
  proof (cases "ss_random_images s = None")
    case True
    have "ss_step (snd (summary ev ?init)) = ss_step s"
      by (simp add: summary_def style_names_def split: option.splits sum.splits)
    moreover have "ss_room_image (snd (summary ev ?init)) = ss_room_image s"
      using summary_effect [of ev ?init] by simp
    moreover have "ss_step (snd (swipe ev img i ?init)) = ss_step s
        \<and> ss_room_image (snd (swipe ev img i ?init)) = ss_room_image s" for img i
      using swipe_effect [of ev img i ?init] by simp
    moreover have "snd (preferences_step env ev s) = s
        \<or> snd (preferences_step env ev s) = snd (summary ev ?init)
        \<or> (\<exists>img i. snd (preferences_step env ev s) = snd (swipe ev img i ?init))"
      using True sel by (auto simp: preferences_step_def Let_def)
    ultimately show ?thesis by metis
  next
    case False
    then show ?thesis
      using summary_effect [of ev s] swipe_effect [of ev _ _ s]
      by (auto simp: preferences_step_def Let_def split: option.splits)
  qed
qed

lemma room_upload_step_effect:
  "ss_liked_images (snd (room_upload_step env ev s)) = ss_liked_images s
   \<and> (ss_step (snd (room_upload_step env ev s)) = ss_step s
         \<and> ss_room_image (snd (room_upload_step env ev s)) = ss_room_image s
      \<or> ss_step (snd (room_upload_step env ev s)) = Some 3
         \<and> (\<exists>b. uploaded_file ev = Some b \<and> b \<noteq> [] \<and> pil_opens env b
                \<and> clicked ev = GenerateDesign
                \<and> fst (room_upload_step env ev s) = Rerun
                \<and> ss_room_image (snd (room_upload_step env ev s)) = Some b))"
  by (auto simp: room_upload_step_def load_image_from_upload_def split: option.splits sum.splits)

lemma ensure_design_options_effect:
  "ensure_design_options env s = Inr s'
     \<Longrightarrow> ss_step s' = ss_step s \<and> ss_liked_images s' = ss_liked_images s
         \<and> ss_room_image s' = ss_room_image s"
  by (auto simp: ensure_design_options_def split: if_splits option.splits)

lemma results_step_effect:
  "snd (results_step env ev s) = empty_session
   \<or> ss_step (snd (results_step env ev s)) = ss_step s
      \<and> ss_liked_images (snd (results_step env ev s)) = ss_liked_images s
      \<and> ss_room_image (snd (results_step env ev s)) = ss_room_image s"
proof (cases "ensure_design_options env s")
  case (Inl e)
  then show ?thesis by (simp add: results_step_def)
next
  case (Inr s')
  with ensure_design_options_effect [OF Inr] show ?thesis
    by (simp add: results_step_def split: option.splits)
qed


lemma on_click_effect:
  "ss_liked_images (on_click ev s) = ss_liked_images s
   \<and> ss_room_image (on_click ev s) = ss_room_image s
   \<and> (ss_step (on_click ev s) = ss_step s
      \<or> ss_step s = Some 2 \<and> ss_step (on_click ev s) = Some 1 \<and> clicked ev = BackToPreferences
      \<or> ss_step s = Some 3 \<and> ss_step (on_click ev s) = Some 2 \<and> clicked ev = BackToUpload)"
  by (simp add: on_click_def)

lemma step_update_same: "ss_step c = Some n \<Longrightarrow> c\<lparr>ss_step := Some n\<rparr> = c"
  by (cases c) auto

lemma main_cases:
  "main env ev s = (Stopped, on_click ev s)
   \<or> (ss_step (on_click ev s) = None \<or> ss_step (on_click ev s) = Some 1)
      \<and> main env ev s = preferences_step env ev ((on_click ev s)\<lparr>ss_step := Some 1\<rparr>)
   \<or> ss_step (on_click ev s) = Some 2 \<and> main env ev s = room_upload_step env ev (on_click ev s)
   \<or> ss_step (on_click ev s) = Some 3 \<and> main env ev s = results_step env ev (on_click ev s)
   \<or> ss_step (on_click ev s) \<notin> {None, Some 1, Some 2, Some 3}
      \<and> main env ev s = (Finished, on_click ev s)"
  by (auto simp: main_def Let_def step_update_same)

lemma main_preserves_inv:
  assumes "flow_inv s"
  shows "flow_inv (snd (main env ev s))"
proof -
  let ?c = "on_click ev s"
  have c: "flow_inv ?c"
    using assms on_click_effect [of ev s] unfolding flow_inv_def by auto
  consider (stop) "main env ev s = (Stopped, ?c)"
    | (one) "main env ev s = preferences_step env ev (?c\<lparr>ss_step := Some 1\<rparr>)"
    | (two) "ss_step ?c = Some 2" "main env ev s = room_upload_step env ev ?c"
    | (three) "ss_step ?c = Some 3" "main env ev s = results_step env ev ?c"
    | (other) "main env ev s = (Finished, ?c)"
    using main_cases [of env ev s] by blast
  then show ?thesis
  proof cases
    case stop
    then show ?thesis using c by simp
  next
    case one
    then show ?thesis
      using preferences_step_effect [of env ev "?c\<lparr>ss_step := Some 1\<rparr>"]
      unfolding flow_inv_def by auto
  next
    case two
    then show ?thesis
      using c room_upload_step_effect [of env ev ?c]
      unfolding flow_inv_def by auto
  next
    case three
    then show ?thesis
      using c results_step_effect [of env ev ?c]
      unfolding flow_inv_def by (auto simp: empty_session_def)
  next
    case other
    then show ?thesis using c by simp
  qed
qed

lemma reachable_inv: "reachable s \<Longrightarrow> flow_inv s"
proof (induction rule: reachable.induct)
  case fresh
  show ?case by (simp add: flow_inv_def empty_session_def)
next
  case (run s env ev)
  then show ?case by (simp add: main_preserves_inv)
qed

lemma guard_preferences:
  assumes "ss_step s = None \<or> ss_step s = Some 1"
  shows "ss_step (snd (main env ev s)) = ss_step s
       \<or> ss_step (snd (main env ev s)) = Some 1
       \<or> ss_step (snd (main env ev s)) = Some 2 \<and> (\<exists>l. l \<noteq> [] \<and> ss_liked_images s = Some l)"
proof -
  have c: "on_click ev s = s" using assms by (auto simp: on_click_def)
  have "main env ev s = (Stopped, s)
      \<or> main env ev s = preferences_step env ev (s\<lparr>ss_step := Some 1\<rparr>)"
    using assms c main_cases [of env ev s] by auto
  then show ?thesis
  proof
    assume "main env ev s = (Stopped, s)"
    then show ?thesis by simp
  next
    assume m: "main env ev s = preferences_step env ev (s\<lparr>ss_step := Some 1\<rparr>)"
    show ?thesis
      using preferences_step_effect [of env ev "s\<lparr>ss_step := Some 1\<rparr>"]
      unfolding m by auto
  qed
qed

lemma guard_upload:
  assumes "ss_step s = Some 2"
  shows "ss_step (snd (main env ev s)) = Some 1
       \<or> ss_step (snd (main env ev s)) = Some 2
       \<or> ss_step (snd (main env ev s)) = Some 3
          \<and> (\<exists>b. uploaded_file ev = Some b \<and> b \<noteq> [] \<and> pil_opens env b
                 \<and> ss_room_image (snd (main env ev s)) = Some b)"
proof (cases "clicked ev = BackToPreferences")
  case True
  then have c: "on_click ev s = s\<lparr>ss_step := Some 1\<rparr>"
    using assms by (simp add: on_click_def)
  have "main env ev s = (Stopped, s\<lparr>ss_step := Some 1\<rparr>)
      \<or> main env ev s = preferences_step env ev (s\<lparr>ss_step := Some 1\<rparr>)"
    using main_cases [of env ev s] unfolding c by auto
  then show ?thesis
  proof
    assume "main env ev s = (Stopped, s\<lparr>ss_step := Some 1\<rparr>)"
    then show ?thesis by simp
  next
    assume m: "main env ev s = preferences_step env ev (s\<lparr>ss_step := Some 1\<rparr>)"
    show ?thesis
      using preferences_step_effect [of env ev "s\<lparr>ss_step := Some 1\<rparr>"]
      unfolding m by auto
  qed
next
  case False
  then have c: "on_click ev s = s" using assms by (simp add: on_click_def)
  have "main env ev s = (Stopped, s) \<or> main env ev s = room_upload_step env ev s"
    using main_cases [of env ev s] assms unfolding c by auto
  then show ?thesis
  proof
    assume "main env ev s = (Stopped, s)"
    then show ?thesis using assms by simp
  next
    assume m: "main env ev s = room_upload_step env ev s"
    show ?thesis
      using room_upload_step_effect [of env ev s] assms
      unfolding m by auto
  qed
qed

lemma main_guards:
  "((ss_step s = None \<or> ss_step s = Some 1) \<and> ss_step (snd (main env ev s)) = Some 2
      \<longrightarrow> (\<exists>l. l \<noteq> [] \<and> ss_liked_images s = Some l))
   \<and> (ss_step s = Some 2 \<and> ss_step (snd (main env ev s)) = Some 3
      \<longrightarrow> (\<exists>b. uploaded_file ev = Some b \<and> b \<noteq> [] \<and> pil_opens env b
              \<and> ss_room_image (snd (main env ev s)) = Some b))
   \<and> ((ss_step s = None \<or> ss_step s = Some 1) \<longrightarrow> ss_step (snd (main env ev s)) \<noteq> Some 3)"
  using guard_preferences [of s env ev] guard_upload [of s env ev] by auto

lemma reachable_fold:
  "reachable s \<Longrightarrow> reachable (fold (\<lambda>ev s. snd (main env ev s)) evs s)"
  by (induction evs arbitrary: s) (simp_all add: reachable.run)

lemma reachable_after: "reachable (after evs)"
  unfolding after_def by (rule reachable_fold) (rule reachable.fresh)

text \<open>
  C7. For every session \<open>s\<close> that a sequence of runs can leave, every world and every
  user action: a run that starts at the preference step (or in a new session) and ends
  at the upload step found a liked-images list that is not empty; a run that starts at
  the upload step and ends at the results step had an uploaded file that
  \<open>Image.open\<close> accepted and whose base64 text is not empty, and stored that text
  as \<open>room_image\<close>; no run goes from the preference step to the results step. So
  whenever the session is at the upload or the results step the liked-images list is
  not empty, and whenever it is at the results step \<open>room_image\<close> is a stored,
  non-empty text.
\<close>

theorem flow_guards:
  assumes "reachable s"
  shows "((ss_step s = None \<or> ss_step s = Some 1) \<and> ss_step (snd (main env ev s)) = Some 2
            \<longrightarrow> (\<exists>l. l \<noteq> [] \<and> ss_liked_images s = Some l))
       \<and> (ss_step s = Some 2 \<and> ss_step (snd (main env ev s)) = Some 3
            \<longrightarrow> (\<exists>b. uploaded_file ev = Some b \<and> b \<noteq> [] \<and> pil_opens env b
                    \<and> ss_room_image (snd (main env ev s)) = Some b))
       \<and> ((ss_step s = None \<or> ss_step s = Some 1) \<longrightarrow> ss_step (snd (main env ev s)) \<noteq> Some 3)
       \<and> (ss_step s = Some 2 \<or> ss_step s = Some 3
            \<longrightarrow> (\<exists>l. l \<noteq> [] \<and> ss_liked_images s = Some l))
       \<and> (ss_step s = Some 3 \<longrightarrow> (\<exists>img. img \<noteq> [] \<and> ss_room_image s = Some img))"
  using main_guards [of s env ev] reachable_inv [OF assms] unfolding flow_inv_def by blast

theorem flow_guards_witness:
  "reachable (after reviewed)
   \<and> ss_step (after reviewed) = Some 1
   \<and> ss_step (snd (main example_env (click ContinueToUpload) (after reviewed))) = Some 2
   \<and> (\<exists>l. l \<noteq> [] \<and> ss_liked_images (after reviewed) = Some l)
   \<and> reachable upload_reached
   \<and> ss_step upload_reached = Some 2
   \<and> ss_step (snd (main example_env (click_with_upload GenerateDesign ''aGk='') upload_reached))
        = Some 3
   \<and> (\<exists>b. uploaded_file (click_with_upload GenerateDesign ''aGk='') = Some b \<and> b \<noteq> []
          \<and> pil_opens example_env b
          \<and> ss_room_image (snd (main example_env (click_with_upload GenerateDesign ''aGk='')
                                   upload_reached)) = Some b)
   \<and> (\<exists>l. l \<noteq> [] \<and> ss_liked_images upload_reached = Some l)
   \<and> reachable results_reached
   \<and> ss_step results_reached = Some 3
   \<and> (\<exists>img. img \<noteq> [] \<and> ss_room_image results_reached = Some img)"
proof -
  have r1: "reachable (after reviewed)" by (rule reachable_after)
  have r2: "reachable upload_reached" unfolding upload_reached_def by (rule reachable_after)
  have r3: "reachable results_reached" unfolding results_reached_def by (rule reachable_after)
  have s1: "ss_step (after reviewed) = Some 1" by code_simp
  have s2: "ss_step (snd (main example_env (click ContinueToUpload) (after reviewed))) = Some 2"
    by code_simp
  have s3: "ss_step upload_reached = Some 2" by code_simp
  have s4: "ss_step (snd (main example_env (click_with_upload GenerateDesign ''aGk='')
                            upload_reached)) = Some 3"
    by code_simp
  have s5: "ss_step results_reached = Some 3" by code_simp
  from flow_guards [OF r1, of example_env "click ContinueToUpload"]
       flow_guards [OF r2, of example_env "click_with_upload GenerateDesign ''aGk=''"]
       flow_guards [OF r3, of example_env "click NoButton"]
       r1 r2 r3 s1 s2 s3 s4 s5
  show ?thesis by simp
qed

lemma preferences_step_idle:
  assumes "clicked ev = NoButton"
  shows "snd (preferences_step env ev s) = s
       \<or> (\<exists>imgs info. snd (preferences_step env ev s) =
             s\<lparr>ss_random_images := Some imgs, ss_style_info := Some info,
               ss_current_index := Some 0, ss_liked_images := Some [],
               ss_disliked_images := Some []\<rparr>)"
proof -
  have sw: "snd (swipe ev img i t) = t" for img i t
    using assms by (simp add: swipe_def split: option.splits)
  have su: "snd (summary ev t) = t" for t
    using assms by (simp add: summary_def split: option.splits sum.splits)
  show ?thesis
    by (auto simp: preferences_step_def Let_def sw su split: option.splits prod.splits)
qed

lemma results_rendered:
  assumes "main env ev0 s0 = (Finished, s)" and "ss_step s = Some 3"
  shows "env_api_key env \<noteq> None \<and> env_api_key env \<noteq> Some []
       \<and> (\<exists>opts img. opts \<noteq> [] \<and> ss_design_options s = Some opts
             \<and> ss_room_image s = Some img \<and> pil_opens env img)"
proof -
  let ?c = "on_click ev0 s0"
  have key: "env_api_key env \<noteq> None \<and> env_api_key env \<noteq> Some []"
    using assms(1) by (auto simp: main_def Let_def split: if_splits)
  have s: "snd (main env ev0 s0) = s" and f: "fst (main env ev0 s0) = Finished"
    using assms(1) by simp_all
  consider (stop) "main env ev0 s0 = (Stopped, ?c)"
    | (one) "main env ev0 s0 = preferences_step env ev0 (?c\<lparr>ss_step := Some 1\<rparr>)"
    | (two) "ss_step ?c = Some 2" "main env ev0 s0 = room_upload_step env ev0 ?c"
    | (three) "ss_step ?c = Some 3" "main env ev0 s0 = results_step env ev0 ?c"
    | (other) "ss_step ?c \<notin> {None, Some 1, Some 2, Some 3}" "main env ev0 s0 = (Finished, ?c)"
    using main_cases [of env ev0 s0] by blast
  then have "\<exists>opts img. opts \<noteq> [] \<and> ss_design_options s = Some opts
             \<and> ss_room_image s = Some img \<and> pil_opens env img"
  proof cases
    case stop
    then show ?thesis using assms by simp
  next
    case one
    have "ss_step s = Some 1 \<or> ss_step s = Some 2"
      using preferences_step_effect [of env ev0 "?c\<lparr>ss_step := Some 1\<rparr>"] s
      unfolding one by auto
    then show ?thesis using assms(2) by auto
  next
    case two
    have "ss_step s = Some 2 \<or> fst (main env ev0 s0) = Rerun"
      using room_upload_step_effect [of env ev0 ?c] s two(1)
      unfolding two(2) by auto
    then show ?thesis using assms(2) f by auto
  next
    case three
    then have "results_step env ev0 ?c = (Finished, s)" using assms by simp
    then show ?thesis
      by (auto simp: results_step_def ensure_design_options_def
               split: sum.splits option.splits if_splits)
  next
    case other
    then show ?thesis using assms by auto
  qed
  with key show ?thesis by simp
qed

text \<open>
  C8. Let \<open>s\<close> be the session a run left with the results page shown to its end. A
  run in which Start Over is clicked then ends in \<open>st.rerun()\<close> with every key of the
  session gone: liked and disliked images, design options, room image, step and all the
  others. The rerun that follows (no button clicked) starts the flow again at step 1,
  with new, empty lists of liked and disliked images (or none, when no style is
  found), no room image and no design options.
\<close>

theorem start_over_resets:
  assumes "main env ev0 s0 = (Finished, s)" and "ss_step s = Some 3"
    and "clicked ev = StartOver" and "clicked ev' = NoButton"
  shows "main env ev s = (Rerun, empty_session)
       \<and> ss_step empty_session = None \<and> ss_random_images empty_session = None
       \<and> ss_style_info empty_session = None \<and> ss_current_index empty_session = None
       \<and> ss_liked_images empty_session = None \<and> ss_disliked_images empty_session = None
       \<and> ss_room_type empty_session = None \<and> ss_room_size empty_session = None
       \<and> ss_room_image empty_session = None \<and> ss_design_options empty_session = None
       \<and> ss_step (snd (main env ev' empty_session)) = Some 1
       \<and> ss_liked_images (snd (main env ev' empty_session)) \<in> {None, Some []}
       \<and> ss_disliked_images (snd (main env ev' empty_session)) \<in> {None, Some []}
       \<and> ss_room_image (snd (main env ev' empty_session)) = None
       \<and> ss_design_options (snd (main env ev' empty_session)) = None"
proof -
  from results_rendered [OF assms(1,2)]
  obtain opts img where r: "env_api_key env \<noteq> None" "env_api_key env \<noteq> Some []"
      "opts \<noteq> []" "ss_design_options s = Some opts" "ss_room_image s = Some img"
      "pil_opens env img"
    by blast
  have a: "main env ev s = (Rerun, empty_session)"
    using r assms(2,3)
    by (simp add: main_def on_click_def Let_def results_step_def ensure_design_options_def)
  have m: "main env ev' empty_session
             = preferences_step env ev' (empty_session\<lparr>ss_step := Some 1\<rparr>)"
    using r(1,2) by (auto simp: main_def on_click_def Let_def empty_session_def)
  have b: "ss_step (snd (main env ev' empty_session)) = Some 1
       \<and> ss_liked_images (snd (main env ev' empty_session)) \<in> {None, Some []}
       \<and> ss_disliked_images (snd (main env ev' empty_session)) \<in> {None, Some []}
       \<and> ss_room_image (snd (main env ev' empty_session)) = None
       \<and> ss_design_options (snd (main env ev' empty_session)) = None"
    using preferences_step_idle [OF assms(4), of env "empty_session\<lparr>ss_step := Some 1\<rparr>"]
    unfolding m by (auto simp: empty_session_def)
  show ?thesis using a b by (simp add: empty_session_def)
qed

theorem start_over_resets_witness:
  "main example_env (click NoButton) results_reached
     = (Finished, snd (main example_env (click NoButton) results_reached))
   \<and> ss_step (snd (main example_env (click NoButton) results_reached)) = Some 3
   \<and> ss_liked_images (snd (main example_env (click NoButton) results_reached))
        = Some [''room_styles/modern/a.jpg'']
   \<and> clicked (click StartOver) = StartOver
   \<and> clicked (click NoButton) = NoButton
   \<and> main example_env (click StartOver) (snd (main example_env (click NoButton) results_reached))
        = (Rerun, empty_session)
   \<and> ss_step (snd (main example_env (click NoButton) empty_session)) = Some 1
   \<and> ss_liked_images (snd (main example_env (click NoButton) empty_session)) \<in> {None, Some []}
   \<and> ss_design_options (snd (main example_env (click NoButton) empty_session)) = None"
proof -
  have f: "fst (main example_env (click NoButton) results_reached) = Finished" by code_simp
  have m: "main example_env (click NoButton) results_reached
             = (Finished, snd (main example_env (click NoButton) results_reached))"
    using f by (simp add: prod_eq_iff)
  have s: "ss_step (snd (main example_env (click NoButton) results_reached)) = Some 3"
    by code_simp
  have l: "ss_liked_images (snd (main example_env (click NoButton) results_reached))
        = Some [''room_styles/modern/a.jpg'']"
    by code_simp
  have c1: "clicked (click StartOver) = StartOver" by (simp add: click_def)
  have c2: "clicked (click NoButton) = NoButton" by (simp add: click_def)
  from start_over_resets [OF m s c1 c2] m s l c1 c2
  show ?thesis by simp
qed


end
